theory Spec2Isabelle
  imports Complex_Main "HOL-Library.Word" "HOL-Library.Sublist"
begin

unbundle bit_operations_syntax

section \<open>Constants and data of Oh.h\<close>

text \<open>
  A C string is represented by the list of its bytes before the terminating NUL, so
  \<open>strlen\<close> is \<open>length\<close> and \<open>strcpy\<close> is the identity. A \<open>char[N]\<close> buffer holds at
  most \<open>N - 1\<close> such bytes.
\<close>

definition MAX_LINE_LENGTH :: nat where
  "MAX_LINE_LENGTH = 4096"

definition MAX_SEGMENTS :: nat where
  "MAX_SEGMENTS = 1000"

definition MAX_PATH_LENGTH :: nat where
  "MAX_PATH_LENGTH = 512"

definition MAX_HASH_LENGTH :: nat where
  "MAX_HASH_LENGTH = 64"

definition MAX_COLOR_LENGTH :: nat where
  "MAX_COLOR_LENGTH = 16"

definition MAX_CACHE_KEY_LENGTH :: nat where
  "MAX_CACHE_KEY_LENGTH = 128"

definition DEFAULT_PADDING :: int where
  "DEFAULT_PADDING = 20"

definition BG_COLOR :: string where
  "BG_COLOR = ''#1e1e1e''"

definition TEXT_COLOR :: string where
  "TEXT_COLOR = ''#ffffff''"

definition ESC :: char where
  "ESC = CHR 0x1B"

text \<open>\<open>TextSegment\<close>: the field \<open>text\<close> of the C struct is \<open>seg_text\<close> here.\<close>

record TextSegment =
  seg_text :: string
  fg_color :: string
  bg_color :: string
  bold :: int
  visible_pos :: int

text \<open>
  \<open>LineData\<close>: the list \<open>segments\<close> holds the first \<open>segment_count\<close> entries of the C
  array, which are the only ones a reader of the structure looks at; \<open>segment_count\<close> is
  the length of that list.
\<close>

record LineData =
  segments :: "TextSegment list"
  visible_length :: int

definition segment_count :: "LineData \<Rightarrow> nat" where
  "segment_count ld = length (segments ld)"

section \<open>Oh.c: the colour table\<close>

definition ansi_colors :: "(int \<times> string) list" where
  "ansi_colors =
     [(30, ''#000000''), (31, ''#cd3131''), (32, ''#0dbc79''), (33, ''#e5e510''),
      (34, ''#2472c8''), (35, ''#bc3fbc''), (36, ''#11a8cd''), (37, ''#e5e5e5''),
      (90, ''#666666''), (91, ''#f14c4c''), (92, ''#23d18b''), (93, ''#f5f543''),
      (94, ''#3b8eea''), (95, ''#d670d6''), (96, ''#29b8db''), (97, ''#e5e5e5'')]"

fun get_ansi_color_from :: "(int \<times> string) list \<Rightarrow> int \<Rightarrow> string" where
  "get_ansi_color_from [] code = TEXT_COLOR"
| "get_ansi_color_from ((c, color) # rest) code =
     (if c = code then color else get_ansi_color_from rest code)"

definition get_ansi_color :: "int \<Rightarrow> string" where
  "get_ansi_color code = get_ansi_color_from ansi_colors code"

section \<open>libc helpers used by the parser\<close>

definition isspace :: "char \<Rightarrow> bool" where
  "isspace c = (c = CHR '' '' \<or> (9 \<le> (of_char c :: nat) \<and> (of_char c :: nat) \<le> 13))"

definition isdigit :: "char \<Rightarrow> bool" where
  "isdigit c = (48 \<le> (of_char c :: nat) \<and> (of_char c :: nat) \<le> 57)"

definition digit_value :: "char \<Rightarrow> int" where
  "digit_value c = int (of_char c) - 48"

fun strtol_digits :: "int \<Rightarrow> string \<Rightarrow> int" where
  "strtol_digits acc [] = acc"
| "strtol_digits acc (c # cs) =
     (if isdigit c then strtol_digits (acc * 10 + digit_value c) cs else acc)"

text \<open>
  \<open>atoi\<close> as glibc implements it, \<open>(int) strtol(s, NULL, 10)\<close> on an LP64 machine: leading
  white space, an optional sign, the longest run of digits, the value clamped to the
  range of \<open>long\<close> and then cut to the low 32 bits. (ISO C leaves values outside the
  range of \<open>int\<close> undefined.)
\<close>

definition atoi :: "string \<Rightarrow> int" where
  "atoi s =
     (let s1 = dropWhile isspace s;
          neg = (case s1 of [] \<Rightarrow> False | c # _ \<Rightarrow> c = CHR ''-'');
          s2 = (case s1 of [] \<Rightarrow> [] | c # r \<Rightarrow> if c = CHR ''-'' \<or> c = CHR ''+'' then r else s1);
          v = strtol_digits 0 s2;
          l = (if neg then max (- v) (- (2 ^ 63)) else min v (2 ^ 63 - 1))
      in sint (word_of_int l :: 32 word))"

fun split_on :: "char \<Rightarrow> string \<Rightarrow> string list" where
  "split_on d [] = [[]]"
| "split_on d (c # cs) =
     (if c = d then [] # split_on d cs
      else (case split_on d cs of [] \<Rightarrow> [[c]] | t # ts \<Rightarrow> (c # t) # ts))"

text \<open>The tokens that successive calls of \<open>strtok(s, d)\<close>, \<open>strtok(NULL, d)\<close> return:
  the non-empty runs between delimiters.\<close>

definition strtok_tokens :: "char \<Rightarrow> string \<Rightarrow> string list" where
  "strtok_tokens d s = filter (\<lambda>t. t \<noteq> []) (split_on d s)"

section \<open>Oh-parse.c\<close>

fun utf8_strlen :: "string \<Rightarrow> int" where
  "utf8_strlen [] = 0"
| "utf8_strlen (p # ps) =
     (if (of_char p :: 8 word) AND 0xC0 \<noteq> 0x80 then 1 else 0) + utf8_strlen ps"

text \<open>The local variables of \<open>parse_ansi_line\<close> together with the segments written so far.
  \<open>st_current_text\<close> is the first \<open>current_text_pos\<close> bytes of the buffer.\<close>

record parse_state =
  st_fg :: string
  st_bg :: string
  st_bold :: int
  st_visible_pos :: int
  st_current_text :: string
  st_segments :: "TextSegment list"

definition init_state :: parse_state where
  "init_state =
     \<lparr>st_fg = TEXT_COLOR, st_bg = [], st_bold = 0, st_visible_pos = 0,
      st_current_text = [], st_segments = []\<rparr>"

text \<open>Lines 157-180 and 240-260: the accumulated text becomes a segment, unless the
  buffer is empty or the array is full.\<close>

definition save_segment :: "parse_state \<Rightarrow> parse_state" where
  "save_segment st =
     (if st_current_text st \<noteq> [] \<and> length (st_segments st) < MAX_SEGMENTS
      then st\<lparr>st_segments := st_segments st @
                  [\<lparr>seg_text = st_current_text st, fg_color = st_fg st, bg_color = st_bg st,
                    bold = st_bold st, visible_pos = st_visible_pos st\<rparr>],
              st_visible_pos := st_visible_pos st + utf8_strlen (st_current_text st),
              st_current_text := []\<rparr>
      else st)"

text \<open>Lines 189-195: the bytes up to the first \<open>m\<close>, the end of the line or the 63rd byte
  go to \<open>codes\<close>; an \<open>m\<close> that follows is skipped.\<close>

definition scan_codes :: "string \<Rightarrow> string \<times> string" where
  "scan_codes body =
     (let codes = take 63 (takeWhile (\<lambda>c. c \<noteq> CHR ''m'') body);
          rest = drop (length codes) body
      in (codes, case rest of [] \<Rightarrow> [] | c # r \<Rightarrow> if c = CHR ''m'' then r else rest))"

definition reset_style :: "parse_state \<Rightarrow> parse_state" where
  "reset_style st = st\<lparr>st_fg := TEXT_COLOR, st_bg := [], st_bold := 0\<rparr>"

definition apply_code :: "parse_state \<Rightarrow> string \<Rightarrow> parse_state" where
  "apply_code st code_str =
     (let code = atoi code_str in
      if code = 0 then reset_style st
      else if code = 1 then st\<lparr>st_bold := 1\<rparr>
      else if 30 \<le> code \<and> code \<le> 37 then st\<lparr>st_fg := get_ansi_color code\<rparr>
      else if 90 \<le> code \<and> code \<le> 97 then st\<lparr>st_fg := get_ansi_color code\<rparr>
      else if 40 \<le> code \<and> code \<le> 47 then st\<lparr>st_bg := get_ansi_color (code - 10)\<rparr>
      else st)"

definition process_codes :: "parse_state \<Rightarrow> string \<Rightarrow> parse_state" where
  "process_codes st codes =
     (if codes = [] then reset_style st
      else foldl apply_code st (strtok_tokens (CHR '';'') codes))"

definition add_char :: "parse_state \<Rightarrow> char \<Rightarrow> parse_state" where
  "add_char st c =
     (if length (st_current_text st) < MAX_LINE_LENGTH - 1
      then st\<lparr>st_current_text := st_current_text st @ [c]\<rparr>
      else st)"

definition at_introducer :: "string \<Rightarrow> bool" where
  "at_introducer s = (case s of c # d # _ \<Rightarrow> c = ESC \<and> d = CHR ''['' | _ \<Rightarrow> False)"

text \<open>The \<open>while (*ptr)\<close> loop of lines 154-237.\<close>

function parse_loop :: "parse_state \<Rightarrow> string \<Rightarrow> parse_state" where
  "parse_loop st [] = st"
| "parse_loop st (c # cs) =
     (if at_introducer (c # cs)
      then parse_loop (process_codes (save_segment st) (fst (scan_codes (tl cs))))
             (snd (scan_codes (tl cs)))
      else parse_loop (add_char st c) cs)"
  by pat_completeness auto
termination
proof (relation "measure (\<lambda>(st, s). length s)")
  show "wf (measure (\<lambda>(st, s). length s))" by simp
next
  fix st :: parse_state and c :: char and cs :: string
  have "length (snd (scan_codes (tl cs))) \<le> length (tl cs)"
    by (auto simp: scan_codes_def Let_def split: list.splits dest: arg_cong [where f = length])
  then show "((process_codes (save_segment st) (fst (scan_codes (tl cs))),
               snd (scan_codes (tl cs))), st, c # cs) \<in> measure (\<lambda>(st, s). length s)"
    by simp
next
  fix st :: parse_state and c :: char and cs :: string
  show "((add_char st c, cs), st, c # cs) \<in> measure (\<lambda>(st, s). length s)"
    by simp
qed

text \<open>Lines 138-263 of \<open>parse_ansi_line\<close>: the parse itself, between the cache lookup and
  the cache store.\<close>

definition finish :: "parse_state \<Rightarrow> LineData" where
  "finish st =
     (let st' = save_segment st
      in \<lparr>segments = st_segments st', visible_length = st_visible_pos st'\<rparr>)"

definition parse_ansi_line_fresh :: "string \<Rightarrow> LineData" where
  "parse_ansi_line_fresh line = finish (parse_loop init_state line)"

section \<open>printf conversions\<close>

definition digit_char :: "int \<Rightarrow> char" where
  "digit_char d = char_of (48 + d)"

text \<open>The decimal digits of a number that is not negative.\<close>

function dec :: "int \<Rightarrow> string" where
  "dec n = (if n < 10 then [digit_char n] else dec (n div 10) @ [digit_char (n mod 10)])"
  by pat_completeness auto
termination
  by (relation "measure nat") auto

declare dec.simps [simp del]

text \<open>\<open>%d\<close> and \<open>%u\<close>.\<close>

definition show_int :: "int \<Rightarrow> string" where
  "show_int i = (if i < 0 then CHR ''-'' # dec (- i) else dec i)"

definition show_u32 :: "32 word \<Rightarrow> string" where
  "show_u32 w = dec (uint w)"

section \<open>jansson values and files\<close>

text \<open>
  The JSON documents jansson builds and reads (reals are left out: nothing here writes
  one, and a reader treats one as it treats \<open>JNull\<close>). An object is the list of its
  members in insertion order, with distinct keys.
\<close>

datatype json =
  JNull
  | JBool bool
  | JInteger int
  | JString string
  | JArray "json list"
  | JObject "(string \<times> json) list"

text \<open>A file on disk: a complete JSON document, or bytes that do not parse as one (an
  empty, cut or foreign file).\<close>

datatype disk_file = Doc json | Torn

fun json_object_get :: "json \<Rightarrow> string \<Rightarrow> json option" where
  "json_object_get (JObject members) key = map_of members key"
| "json_object_get _ key = None"

fun set_member :: "string \<Rightarrow> json \<Rightarrow> (string \<times> json) list \<Rightarrow> (string \<times> json) list" where
  "set_member key v [] = [(key, v)]"
| "set_member key v ((k, w) # members) =
     (if k = key then (k, v) # members else (k, w) # set_member key v members)"

text \<open>\<open>json_object_set_new\<close> and \<open>json_array_append_new\<close> do nothing (and return -1) when
  the value is NULL.\<close>

fun json_object_set_new :: "json \<Rightarrow> string \<Rightarrow> json option \<Rightarrow> json" where
  "json_object_set_new (JObject members) key (Some v) = JObject (set_member key v members)"
| "json_object_set_new j key _ = j"

fun json_array_append_new :: "json \<Rightarrow> json option \<Rightarrow> json" where
  "json_array_append_new (JArray xs) (Some v) = JArray (xs @ [v])"
| "json_array_append_new j _ = j"

section \<open>The globals of Oh.c and the world around them\<close>

text \<open>
  The global variables the cache module uses, the files on disk, and three facts about
  the environment that the code cannot see: which paths can be written, which byte strings
  jansson's \<open>json_string\<close> accepts (it returns NULL unless the bytes are valid UTF-8),
  and what a shell command run through \<open>popen\<close> prints: \<open>popen_line command\<close> is the
  first line of its output, \<open>None\<close> when \<open>popen\<close> fails or the command prints nothing.
  \<open>hash_cache\<close> holds the first \<open>input_line_count\<close> entries of the C array.
\<close>

record globals =
  cache_dir :: string
  incremental_cache_file :: string
  cache_stats_segment_hits :: int
  cache_stats_segment_misses :: int
  cache_stats_svg_hits :: int
  cache_stats_svg_misses :: int
  hash_cache :: "string list"
  global_input_hash :: string
  previous_input_hash :: string
  files :: "string \<Rightarrow> disk_file option"
  writable :: "string \<Rightarrow> bool"
  utf8_ok :: "string \<Rightarrow> bool"
  popen_line :: "string \<Rightarrow> string option"

definition json_string :: "globals \<Rightarrow> string \<Rightarrow> json option" where
  "json_string g s = (if utf8_ok g s then Some (JString s) else None)"

text \<open>\<open>json_load_file\<close> with flags 0: NULL unless the file parses and its root is an array
  or an object.\<close>

definition json_load_file :: "globals \<Rightarrow> string \<Rightarrow> json option" where
  "json_load_file g path =
     (case files g path of
        Some (Doc (JObject members)) \<Rightarrow> Some (JObject members)
      | Some (Doc (JArray xs)) \<Rightarrow> Some (JArray xs)
      | _ \<Rightarrow> None)"

text \<open>\<open>json_dump_file\<close> opens the path for writing, which empties the file, writes the
  document and closes it. The result is the new state and the return value.\<close>

definition json_dump_file :: "globals \<Rightarrow> json \<Rightarrow> string \<Rightarrow> globals \<times> int" where
  "json_dump_file g doc path =
     (if writable g path then (g\<lparr>files := (files g)(path \<mapsto> Doc doc)\<rparr>, 0) else (g, - 1))"

text \<open>The states of the disk while \<open>json_dump_file\<close> runs: after the file is opened (and
  while it is being written) it holds no complete document.\<close>

definition json_dump_file_trace :: "globals \<Rightarrow> json \<Rightarrow> string \<Rightarrow> (string \<Rightarrow> disk_file option) list" where
  "json_dump_file_trace g doc path =
     (if writable g path then [(files g)(path \<mapsto> Torn), (files g)(path \<mapsto> Doc doc)] else [])"

section \<open>Oh-cache.c: the line cache\<close>

definition get_cache_key :: "string \<Rightarrow> string \<Rightarrow> string" where
  "get_cache_key line_hash config_hash =
     take (MAX_CACHE_KEY_LENGTH - 1) (config_hash @ ''_'' @ line_hash)"

text \<open>Line 108: \<open>snprintf\<close> into a buffer of \<open>2 * MAX_LINE_LENGTH\<close> bytes.\<close>

definition segment_string :: "TextSegment \<Rightarrow> string" where
  "segment_string seg =
     take (MAX_LINE_LENGTH * 2 - 1)
       (seg_text seg @ ''|'' @ fg_color seg @ ''|'' @ bg_color seg @ ''|'' @
        (if bold seg \<noteq> 0 then ''true'' else ''false'') @ ''|'' @ show_int (visible_pos seg))"

definition save_line_cache :: "globals \<Rightarrow> int \<Rightarrow> string \<Rightarrow> LineData \<Rightarrow> globals \<times> int" where
  "save_line_cache g now cache_key line_data =
     (let cache_file = cache_dir g @ ''/'' @ cache_key @ ''.json'' in
      if MAX_PATH_LENGTH \<le> length cache_file then (g, - 1)
      else
        let root = JObject [];
            root = json_object_set_new root ''cache_key'' (json_string g cache_key);
            root = json_object_set_new root ''visible_length''
                     (Some (JInteger (visible_length line_data)));
            segments_array =
              foldl (\<lambda>arr seg. json_array_append_new arr (json_string g (segment_string seg)))
                (JArray []) (segments line_data);
            root = json_object_set_new root ''segments'' (Some segments_array);
            root = json_object_set_new root ''timestamp'' (Some (JInteger now))
        in json_dump_file g root cache_file)"

text \<open>Lines 214-223: at most \<open>n\<close> fields, cut at the pipes; what follows the pipe after
  the last field is dropped.\<close>

fun split_fields :: "nat \<Rightarrow> string \<Rightarrow> string list" where
  "split_fields 0 current = []"
| "split_fields (Suc n) current =
     (if CHR ''|'' \<in> set current
      then takeWhile (\<lambda>c. c \<noteq> CHR ''|'') current #
           split_fields n (tl (dropWhile (\<lambda>c. c \<noteq> CHR ''|'') current))
      else [current])"

definition part :: "string list \<Rightarrow> nat \<Rightarrow> string option" where
  "part parts i = (if i < length parts then Some (parts ! i) else None)"

definition fits :: "string option \<Rightarrow> nat \<Rightarrow> bool" where
  "fits p n = (case p of None \<Rightarrow> True | Some s \<Rightarrow> length s < n)"

text \<open>
  Lines 205-272 for one array element. \<open>old\<close> is what the slot
  \<open>line_data->segments[segment_count]\<close> held before the call: a field whose part is
  missing is not assigned and keeps that value. The result is \<open>None\<close> when a \<open>strcpy\<close>
  would run past its buffer, which C leaves undefined.
\<close>

definition load_segment :: "TextSegment \<Rightarrow> string \<Rightarrow> TextSegment option" where
  "load_segment old segment_data =
     (let parts = split_fields 5 (take (MAX_LINE_LENGTH * 2 - 1) segment_data) in
      if fits (part parts 0) MAX_LINE_LENGTH \<and> fits (part parts 1) MAX_COLOR_LENGTH \<and>
         fits (part parts 2) MAX_COLOR_LENGTH
      then Some
        \<lparr>seg_text = (case part parts 0 of Some p \<Rightarrow> p | None \<Rightarrow> seg_text old),
         fg_color = (case part parts 1 of Some p \<Rightarrow> p | None \<Rightarrow> fg_color old),
         bg_color = (case part parts 2 of Some p \<Rightarrow> p | None \<Rightarrow> bg_color old),
         bold = (case part parts 3 of Some p \<Rightarrow> (if p = ''true'' then 1 else 0)
                 | None \<Rightarrow> bold old),
         visible_pos = (case part parts 4 of Some p \<Rightarrow> atoi p | None \<Rightarrow> visible_pos old)\<rparr>
      else None)"

text \<open>The loop of lines 193-276 over the array; \<open>prior i\<close> is the old content of slot
  \<open>i\<close> of the caller's structure, \<open>acc\<close> the segments read so far.\<close>

fun load_segments ::
  "(nat \<Rightarrow> TextSegment) \<Rightarrow> TextSegment list \<Rightarrow> json list \<Rightarrow> TextSegment list option" where
  "load_segments prior acc [] = Some acc"
| "load_segments prior acc (j # js) =
     (if length acc < MAX_SEGMENTS
      then (case j of
              JString segment_data \<Rightarrow>
                (case load_segment (prior (length acc)) segment_data of
                   None \<Rightarrow> None
                 | Some seg \<Rightarrow> load_segments prior (acc @ [seg]) js)
            | _ \<Rightarrow> load_segments prior acc js)
      else Some acc)"

text \<open>What \<open>load_line_cache\<close> leaves behind: \<open>Miss\<close> is the return value -1 (the
  structure is not touched), \<open>Loaded\<close> is 0 with the structure filled in,
  \<open>Buffer_overflow\<close> is a copy past the end of a field.\<close>

datatype load_outcome = Miss | Loaded LineData | Buffer_overflow

definition load_line_cache ::
  "globals \<Rightarrow> string \<Rightarrow> (nat \<Rightarrow> TextSegment) \<Rightarrow> globals \<times> load_outcome" where
  "load_line_cache g cache_key prior =
     (let cache_file = cache_dir g @ ''/'' @ cache_key @ ''.json'' in
      if MAX_PATH_LENGTH \<le> length cache_file
      then (g\<lparr>cache_stats_segment_misses := cache_stats_segment_misses g + 1\<rparr>, Miss)
      else
        (case json_load_file g cache_file of
           None \<Rightarrow> (g\<lparr>cache_stats_segment_misses := cache_stats_segment_misses g + 1\<rparr>, Miss)
         | Some doc \<Rightarrow>
             (let g' = g\<lparr>cache_stats_segment_hits := cache_stats_segment_hits g + 1\<rparr>;
                  vl = (case json_object_get doc ''visible_length'' of
                          Some (JInteger v) \<Rightarrow> sint (word_of_int v :: 32 word)
                        | _ \<Rightarrow> 0);
                  segs = (case json_object_get doc ''segments'' of
                            Some (JArray xs) \<Rightarrow> load_segments prior [] xs
                          | _ \<Rightarrow> Some [])
              in case segs of
                   None \<Rightarrow> (g', Buffer_overflow)
                 | Some ss \<Rightarrow> (g', Loaded \<lparr>segments = ss, visible_length = vl\<rparr>))))"

text \<open>\<open>parse_ansi_line\<close> as a whole: the cache is asked first when both hashes are given
  and not empty; after a parse the record is stored when both are given. \<open>None\<close> is a
  NULL pointer.\<close>

definition parse_ansi_line ::
  "globals \<Rightarrow> int \<Rightarrow> string \<Rightarrow> string option \<Rightarrow> string option \<Rightarrow> (nat \<Rightarrow> TextSegment) \<Rightarrow>
   globals \<times> load_outcome" where
  "parse_ansi_line g now line line_hash config_hash prior =
     (let try_cache =
            (case (line_hash, config_hash) of
               (Some lh, Some ch) \<Rightarrow>
                 if lh \<noteq> [] \<and> ch \<noteq> [] then load_line_cache g (get_cache_key lh ch) prior
                 else (g, Miss)
             | _ \<Rightarrow> (g, Miss))
      in case try_cache of
           (g', Miss) \<Rightarrow>
             (let line_data = parse_ansi_line_fresh line
              in case (line_hash, config_hash) of
                   (Some lh, Some ch) \<Rightarrow>
                     (fst (save_line_cache g' now (get_cache_key lh ch) line_data),
                      Loaded line_data)
                 | _ \<Rightarrow> (g', Loaded line_data))
         | (g', outcome) \<Rightarrow> (g', outcome))"

section \<open>Oh-cache.c: hashing\<close>

text \<open>\<open>strtoul(s, NULL, 10)\<close> of glibc on an LP64 machine: white space, an optional sign, the
  digits; a value past \<open>ULONG_MAX\<close> gives \<open>ULONG_MAX\<close>, a minus sign negates modulo
  \<open>2^64\<close>.\<close>

definition strtoul :: "string \<Rightarrow> int" where
  "strtoul s =
     (let s1 = dropWhile isspace s;
          neg = (case s1 of [] \<Rightarrow> False | c # _ \<Rightarrow> c = CHR ''-'');
          s2 = (case s1 of [] \<Rightarrow> [] | c # r \<Rightarrow> if c = CHR ''-'' \<or> c = CHR ''+'' then r else s1);
          v = strtol_digits 0 s2
      in if 2 ^ 64 - 1 < v then 2 ^ 64 - 1 else if neg then (- v) mod 2 ^ 64 else v)"

text \<open>Line 16: the command, cut to the buffer of \<open>MAX_LINE_LENGTH + 50\<close> bytes.\<close>

definition cksum_command :: "string \<Rightarrow> string" where
  "cksum_command input =
     take (MAX_LINE_LENGTH + 50 - 1)
       (''printf '' @ [CHR 0x27] @ ''%s'' @ [CHR 0x27] @ '' '' @ [CHR 0x27] @ input @
        [CHR 0x27] @ '' | cksum'')"

text \<open>Lines 24-29: the fallback, \<open>hash * 31 + byte\<close> in \<open>unsigned int\<close>.\<close>

definition fallback_hash :: "string \<Rightarrow> 32 word" where
  "fallback_hash input = foldl (\<lambda>hash c. hash * 31 + of_char c) 0 input"

text \<open>\<open>generate_hash\<close>: \<open>popen\<close> is the environment's answer to a command (see
  \<open>popen_line\<close>); \<open>fgets\<close> reads at most 63 bytes of it.\<close>

definition generate_hash :: "(string \<Rightarrow> string option) \<Rightarrow> string \<Rightarrow> 32 word" where
  "generate_hash popen input =
     (case popen (cksum_command input) of
        Some result \<Rightarrow> word_of_int (strtoul (take 63 result))
      | None \<Rightarrow> fallback_hash input)"

section \<open>Oh.h, Oh-cache.c: the configuration fingerprint\<close>

text \<open>
  A \<open>double\<close>: its sign bit, and what its other bits hold, which is a finite magnitude
  \<open>m * 2 ^ e\<close>, an infinity or a NaN. (The range of mantissa and exponent is not
  bounded here, so every \<open>double\<close> has a value of this type.)
\<close>

datatype magnitude = Finite nat int | Infinite | Not_a_number

datatype double = Double bool magnitude

definition finite_value :: "nat \<Rightarrow> int \<Rightarrow> rat" where
  "finite_value m e = (if 0 \<le> e then of_nat m * 2 ^ nat e else of_nat m / 2 ^ nat (- e))"

record Config =
  input_file :: string
  output_file :: string
  font_family :: string
  font_size :: int
  font_width :: double
  font_height :: double
  font_weight :: int
  width :: int
  height :: int
  wrap :: int
  tab_size :: int
  font_width_explicit :: int
  font_height_explicit :: int

definition round_half_even :: "rat \<Rightarrow> int" where
  "round_half_even q =
     (let f = \<lfloor>q\<rfloor>; d = q - of_int f
      in if d < 1 / 2 then f else if 1 / 2 < d then f + 1 else if even f then f else f + 1)"

text \<open>\<open>%.2f\<close> as glibc prints it: a minus sign when the sign bit is set (also for zero
  and NaN), then the magnitude rounded to the nearest hundredth (ties to even, the
  default rounding mode), or \<open>inf\<close>, or \<open>nan\<close>.\<close>

definition show_hundredths :: "rat \<Rightarrow> string" where
  "show_hundredths q =
     (let r = round_half_even (q * 100)
      in dec (r div 100) @ ''.'' @ [digit_char (r mod 100 div 10), digit_char (r mod 10)])"

definition show_f2 :: "double \<Rightarrow> string" where
  "show_f2 x =
     (case x of
        Double negative mag \<Rightarrow>
          (if negative then ''-'' else []) @
          (case mag of
             Finite m e \<Rightarrow> show_hundredths (finite_value m e)
           | Infinite \<Rightarrow> ''inf''
           | Not_a_number \<Rightarrow> ''nan''))"

text \<open>Lines 40-45: what the format produces, and \<open>config_string\<close>, the 1024-byte buffer
  that receives it.\<close>

definition config_fields :: "Config \<Rightarrow> string" where
  "config_fields config =
     font_family config @ ''|'' @ show_int (font_size config) @ ''|'' @
     show_f2 (font_width config) @ ''|'' @ show_f2 (font_height config) @ ''|'' @
     show_int (font_weight config) @ ''|'' @ show_int (width config) @ ''|'' @
     show_int (height config) @ ''|'' @ (if wrap config \<noteq> 0 then ''true'' else ''false'') @
     ''|'' @ show_int (tab_size config) @ ''|'' @ BG_COLOR @ ''|'' @ TEXT_COLOR @ ''|'' @
     show_int DEFAULT_PADDING"

definition config_string :: "Config \<Rightarrow> string" where
  "config_string config = take 1023 (config_fields config)"

definition generate_config_hash :: "(string \<Rightarrow> string option) \<Rightarrow> Config \<Rightarrow> string" where
  "generate_config_hash popen config =
     take (MAX_HASH_LENGTH - 1) (show_u32 (generate_hash popen (config_string config)))"

section \<open>Oh.c, Oh-cache.c: the incremental cache\<close>

text \<open>Lines 391-394 of \<open>read_input\<close>: one decimal hash per input line.\<close>

definition hash_input_lines :: "(string \<Rightarrow> string option) \<Rightarrow> string list \<Rightarrow> string list" where
  "hash_input_lines popen input_lines =
     map (\<lambda>line. take (MAX_HASH_LENGTH - 1) (show_u32 (generate_hash popen line))) input_lines"

definition generate_global_input_hash :: "globals \<Rightarrow> globals" where
  "generate_global_input_hash g =
     g\<lparr>global_input_hash :=
         take (MAX_HASH_LENGTH - 1)
           (show_u32 (generate_hash (popen_line g) (concat (hash_cache g))))\<rparr>"

text \<open>The hashing loop of \<open>read_input\<close> followed by \<open>generate_global_input_hash\<close>, as
  \<open>main\<close> runs them: the fingerprint of a list of input lines.\<close>

definition global_fingerprint :: "globals \<Rightarrow> string list \<Rightarrow> string" where
  "global_fingerprint g input_lines =
     global_input_hash
       (generate_global_input_hash
          (g\<lparr>hash_cache := hash_input_lines (popen_line g) input_lines\<rparr>))"

definition load_incremental_cache :: "globals \<Rightarrow> globals \<times> int" where
  "load_incremental_cache g =
     (case json_load_file g (incremental_cache_file g) of
        None \<Rightarrow> (g, - 1)
      | Some doc \<Rightarrow>
          (case json_object_get doc ''global_input_hash'' of
             Some (JString hash_value) \<Rightarrow>
               (g\<lparr>previous_input_hash := take (MAX_HASH_LENGTH - 1) hash_value\<rparr>, 0)
           | _ \<Rightarrow> (g, 0)))"

text \<open>Lines 439-473: the document \<open>save_incremental_cache\<close> builds.\<close>

definition incremental_root :: "globals \<Rightarrow> string \<Rightarrow> int \<Rightarrow> json" where
  "incremental_root g config_hash now =
     (let root = JObject [];
          root = json_object_set_new root ''global_input_hash''
                   (json_string g (global_input_hash g));
          root = json_object_set_new root ''config_hash'' (json_string g config_hash);
          root = json_object_set_new root ''line_count''
                   (Some (JInteger (int (length (hash_cache g)))));
          line_hashes_array =
            foldl (\<lambda>arr h. json_array_append_new arr (json_string g h)) (JArray [])
              (hash_cache g);
          root = json_object_set_new root ''line_hashes'' (Some line_hashes_array);
          root = json_object_set_new root ''timestamp'' (Some (JInteger now));
          cache_stats = JObject [];
          cache_stats = json_object_set_new cache_stats ''segment_hits''
                          (Some (JInteger (cache_stats_segment_hits g)));
          cache_stats = json_object_set_new cache_stats ''segment_misses''
                          (Some (JInteger (cache_stats_segment_misses g)));
          cache_stats = json_object_set_new cache_stats ''svg_hits''
                          (Some (JInteger (cache_stats_svg_hits g)));
          cache_stats = json_object_set_new cache_stats ''svg_misses''
                          (Some (JInteger (cache_stats_svg_misses g)))
      in json_object_set_new root ''cache_stats'' (Some cache_stats))"

text \<open>Lines 475-485: the document is written straight to \<open>incremental_cache_file\<close>.\<close>

definition save_incremental_cache :: "globals \<Rightarrow> string \<Rightarrow> int \<Rightarrow> globals \<times> int" where
  "save_incremental_cache g config_hash now =
     json_dump_file g (incremental_root g config_hash now) (incremental_cache_file g)"

text \<open>The states the disk passes through during that call.\<close>

definition save_incremental_cache_trace ::
  "globals \<Rightarrow> string \<Rightarrow> int \<Rightarrow> (string \<Rightarrow> disk_file option) list" where
  "save_incremental_cache_trace g config_hash now =
     json_dump_file_trace g (incremental_root g config_hash now) (incremental_cache_file g)"

section \<open>The checksum of POSIX cksum\<close>

text \<open>
  The reference the specification names: the checksum of the POSIX \<open>cksum\<close> utility, a
  program outside this repository. It is the CRC with generator polynomial
  \<open>0x04C11DB7\<close>, most significant bit first and starting from 0, over the bytes of the
  input followed by the input's length in octets, least significant octet first; the
  result is complemented.
\<close>

fun crc_shift :: "nat \<Rightarrow> 32 word \<Rightarrow> 32 word" where
  "crc_shift 0 crc = crc"
| "crc_shift (Suc n) crc =
     crc_shift n (if bit crc 31 then push_bit 1 crc XOR 0x04C11DB7 else push_bit 1 crc)"

definition crc_octet :: "32 word \<Rightarrow> 8 word \<Rightarrow> 32 word" where
  "crc_octet crc b = crc_shift 8 (crc XOR push_bit 24 (ucast b))"

function length_octets :: "int \<Rightarrow> 8 word list" where
  "length_octets n = (if n \<le> 0 then [] else word_of_int n # length_octets (n div 256))"
  by pat_completeness auto
termination
  by (relation "measure nat") auto

declare length_octets.simps [simp del]

definition posix_cksum :: "string \<Rightarrow> 32 word" where
  "posix_cksum input =
     NOT (foldl crc_octet (foldl crc_octet 0 (map of_char input)) (length_octets (int (length input))))"

text \<open>Two environments: one in which the utility is missing, and one in which it works
  on input without quotes, where the command prints the checksum, a space, the length
  and a newline.\<close>

definition no_cksum :: "string \<Rightarrow> string option" where
  "no_cksum command = None"

definition working_cksum :: "string \<Rightarrow> string option" where
  "working_cksum command =
     (let input = take (length command - 22) (drop 13 command)
      in if command = cksum_command input \<and> CHR 0x27 \<notin> set input \<and> length input < MAX_LINE_LENGTH
         then Some (show_u32 (posix_cksum input) @ '' '' @ dec (int (length input)) @ [CHR 0x0A])
         else None)"

section \<open>Example states\<close>

text \<open>A state with an empty cache directory in which every path can be written and
  \<open>json_string\<close> accepts every string; the utility \<open>cksum\<close> is missing.\<close>

definition example_globals :: globals where
  "example_globals =
     \<lparr>cache_dir = ''/tmp/c'', incremental_cache_file = ''/tmp/c/incremental.json'',
      cache_stats_segment_hits = 0, cache_stats_segment_misses = 0,
      cache_stats_svg_hits = 0, cache_stats_svg_misses = 0,
      hash_cache = [], global_input_hash = [], previous_input_hash = [],
      files = (\<lambda>path. None), writable = (\<lambda>path. True), utf8_ok = (\<lambda>s. True),
      popen_line = no_cksum\<rparr>"

text \<open>What a slot of freshly allocated memory may hold.\<close>

definition stale_segment :: TextSegment where
  "stale_segment =
     \<lparr>seg_text = ''old'', fg_color = ''#cd3131'', bg_color = ''#000000'', bold = 1,
      visible_pos = 7\<rparr>"

definition example_config :: Config where
  "example_config =
     \<lparr>input_file = [], output_file = [], font_family = ''Consolas'', font_size = 14,
      font_width = Double False (Finite 17 (- 1)), font_height = Double False (Finite 17 0),
      font_weight = 400, width = 80, height = 0,
      wrap = 0, tab_size = 8, font_width_explicit = 0, font_height_explicit = 0\<rparr>"

section \<open>Predicates of the specification\<close>

text \<open>Segments that tile the visible columns from \<open>p\<close> to \<open>v\<close>: each starts where the
  one before it ends.\<close>

fun contiguous :: "int \<Rightarrow> TextSegment list \<Rightarrow> int \<Rightarrow> bool" where
  "contiguous p [] v = (p = v)"
| "contiguous p (s # ss) v =
     (visible_pos s = p \<and> contiguous (p + utf8_strlen (seg_text s)) ss v)"

text \<open>The line has an ESC \<open>[\<close> pair at some position.\<close>

fun has_introducer :: "string \<Rightarrow> bool" where
  "has_introducer [] = False"
| "has_introducer (c # cs) = (at_introducer (c # cs) \<or> has_introducer cs)"

text \<open>The loop invariant of \<open>parse_ansi_line\<close>: the segments written so far tile the
  columns from 0 to the running \<open>visible_pos\<close>.\<close>

definition positions_ok :: "parse_state \<Rightarrow> bool" where
  "positions_ok st = contiguous 0 (st_segments st) (st_visible_pos st)"

text \<open>A segment that the five-field format can hold: no pipe in its strings, strings that
  fit their buffers, a bold flag of 0 or 1, a position in the range of \<open>int\<close>, and a
  segment string that \<open>json_string\<close> accepts.\<close>

definition storable :: "globals \<Rightarrow> TextSegment \<Rightarrow> bool" where
  "storable g seg =
     (CHR ''|'' \<notin> set (seg_text seg) \<and> CHR ''|'' \<notin> set (fg_color seg) \<and>
      CHR ''|'' \<notin> set (bg_color seg) \<and> length (seg_text seg) < MAX_LINE_LENGTH \<and>
      length (fg_color seg) < MAX_COLOR_LENGTH \<and> length (bg_color seg) < MAX_COLOR_LENGTH \<and>
      (bold seg = 0 \<or> bold seg = 1) \<and> - (2 ^ 31) \<le> visible_pos seg \<and>
      visible_pos seg < 2 ^ 31 \<and> utf8_ok g (segment_string seg))"

text \<open>The fields after the font family, in the order of the format.\<close>

definition config_field_list :: "Config \<Rightarrow> string list" where
  "config_field_list config =
     [show_int (font_size config), show_f2 (font_width config), show_f2 (font_height config),
      show_int (font_weight config), show_int (width config), show_int (height config),
      (if wrap config \<noteq> 0 then ''true'' else ''false''), show_int (tab_size config),
      BG_COLOR, TEXT_COLOR, show_int DEFAULT_PADDING]"

section \<open>Code points and structured lines\<close>

text \<open>A Unicode scalar value, and its UTF-8 encoding.\<close>

definition unicode_scalar :: "nat \<Rightarrow> bool" where
  "unicode_scalar cp = (cp < 0xD800 \<or> (0xE000 \<le> cp \<and> cp < 0x110000))"

definition utf8_encode :: "nat \<Rightarrow> string" where
  "utf8_encode cp =
     (if cp < 0x80 then [char_of cp]
      else if cp < 0x800 then [char_of (0xC0 + cp div 64), char_of (0x80 + cp mod 64)]
      else if cp < 0x10000
      then [char_of (0xE0 + cp div 4096), char_of (0x80 + cp div 64 mod 64),
            char_of (0x80 + cp mod 64)]
      else [char_of (0xF0 + cp div 262144), char_of (0x80 + cp div 4096 mod 64),
            char_of (0x80 + cp div 64 mod 64), char_of (0x80 + cp mod 64)])"

definition utf8 :: "nat list \<Rightarrow> string" where
  "utf8 cps = concat (map utf8_encode cps)"

text \<open>
  A line given by its parts: runs of characters (code points other than ESC) and SGR
  escapes ESC \<open>[\<close> codes \<open>m\<close>, whose codes hold no \<open>m\<close> and fit the 63 bytes the parser
  reads.
\<close>

datatype item = Chars "nat list" | Sgr string

fun render :: "item \<Rightarrow> string" where
  "render (Chars cps) = utf8 cps"
| "render (Sgr codes) = ESC # CHR ''['' # codes @ ''m''"

definition render_line :: "item list \<Rightarrow> string" where
  "render_line items = concat (map render items)"

fun valid_item :: "item \<Rightarrow> bool" where
  "valid_item (Chars cps) = list_all (\<lambda>cp. unicode_scalar cp \<and> cp \<noteq> 27) cps"
| "valid_item (Sgr codes) = (CHR ''m'' \<notin> set codes \<and> length codes \<le> 63)"

text \<open>The visible characters of such a line, grouped as the escapes divide them: the
  non-empty runs of code points between escapes.\<close>

fun runs_from :: "nat list \<Rightarrow> item list \<Rightarrow> nat list list" where
  "runs_from cur [] = (if cur = [] then [] else [cur])"
| "runs_from cur (Chars cps # items) = runs_from (cur @ cps) items"
| "runs_from cur (Sgr codes # items) = (if cur = [] then [] else [cur]) @ runs_from [] items"

definition runs :: "item list \<Rightarrow> nat list list" where
  "runs items = runs_from [] items"

text \<open>Each run with the column at which it starts, counted in code points from \<open>p\<close>.\<close>

fun place :: "int \<Rightarrow> nat list list \<Rightarrow> (string \<times> int) list" where
  "place p [] = []"
| "place p (r # rs) = (utf8 r, p) # place (p + int (length r)) rs"

text \<open>The text and the position of each segment.\<close>

definition placed :: "TextSegment list \<Rightarrow> (string \<times> int) list" where
  "placed segs = map (\<lambda>s. (seg_text s, visible_pos s)) segs"

text \<open>The text the loop has kept so far: that of the segments written, then the
  buffer.\<close>

definition seen :: "parse_state \<Rightarrow> string" where
  "seen st = concat (map seg_text (st_segments st)) @ st_current_text st"

text \<open>\<open>parse_ansi_line\<close> computes the record itself: a hash is missing or empty, or
  the cache has no readable file for the key.\<close>

definition cache_miss ::
  "globals \<Rightarrow> string option \<Rightarrow> string option \<Rightarrow> (nat \<Rightarrow> TextSegment) \<Rightarrow> bool" where
  "cache_miss g line_hash config_hash prior =
     (case (line_hash, config_hash) of
        (Some lh, Some ch) \<Rightarrow>
          lh = [] \<or> ch = [] \<or> snd (load_line_cache g (get_cache_key lh ch) prior) = Miss
      | _ \<Rightarrow> True)"

section \<open>The parser: positions\<close>

lemma utf8_strlen_nonneg: "0 \<le> utf8_strlen s"
  by (induction s) auto

lemma contiguous_le: "contiguous p ss v \<Longrightarrow> p \<le> v"
proof (induction ss arbitrary: p)
  case Nil
  then show ?case by simp
next
  case (Cons s ss)
  then have "p + utf8_strlen (seg_text s) \<le> v" by simp
  with utf8_strlen_nonneg [of "seg_text s"] show ?case by linarith
qed

lemma contiguous_snoc:
  "contiguous p ss v \<Longrightarrow> visible_pos s = v \<Longrightarrow> w = v + utf8_strlen (seg_text s) \<Longrightarrow>
   contiguous p (ss @ [s]) w"
  by (induction ss arbitrary: p) auto

lemma contiguous_bounds:
  "contiguous p ss v \<Longrightarrow> s \<in> set ss \<Longrightarrow>
   p \<le> visible_pos s \<and> visible_pos s + utf8_strlen (seg_text s) \<le> v"
proof (induction ss arbitrary: p)
  case Nil
  then show ?case by simp
next
  case (Cons a ss)
  from Cons.prems have tl: "contiguous (p + utf8_strlen (seg_text a)) ss v" and a: "visible_pos a = p"
    by simp_all
  show ?case
  proof (cases "s = a")
    case True
    with a contiguous_le [OF tl] show ?thesis by simp
  next
    case False
    with Cons.prems have "s \<in> set ss" by simp
    from Cons.IH [OF tl this] utf8_strlen_nonneg [of "seg_text a"] show ?thesis by linarith
  qed
qed

lemma contiguous_sorted: "contiguous p ss v \<Longrightarrow> sorted (map visible_pos ss)"
proof (induction ss arbitrary: p)
  case Nil
  then show ?case by simp
next
  case (Cons a ss)
  from Cons.prems have tl: "contiguous (p + utf8_strlen (seg_text a)) ss v" and a: "visible_pos a = p"
    by simp_all
  have "visible_pos a \<le> visible_pos s" if "s \<in> set ss" for s
    using contiguous_bounds [OF tl that] utf8_strlen_nonneg [of "seg_text a"] a by linarith
  with Cons.IH [OF tl] show ?case by auto
qed

lemma contiguous_sum:
  "contiguous p ss v \<Longrightarrow> v = p + sum_list (map (\<lambda>s. utf8_strlen (seg_text s)) ss)"
proof (induction ss arbitrary: p)
  case Nil
  then show ?case by simp
next
  case (Cons a ss)
  from Cons.prems have "contiguous (p + utf8_strlen (seg_text a)) ss v" by simp
  from Cons.IH [OF this] show ?case by simp
qed

lemma apply_code_keeps [simp]:
  "st_segments (apply_code st t) = st_segments st"
  "st_visible_pos (apply_code st t) = st_visible_pos st"
  "st_current_text (apply_code st t) = st_current_text st"
  by (simp_all add: apply_code_def reset_style_def Let_def)

lemma foldl_apply_code_keeps [simp]:
  "st_segments (foldl apply_code st ts) = st_segments st"
  "st_visible_pos (foldl apply_code st ts) = st_visible_pos st"
  "st_current_text (foldl apply_code st ts) = st_current_text st"
  by (induction ts arbitrary: st) simp_all

lemma process_codes_keeps [simp]:
  "st_segments (process_codes st codes) = st_segments st"
  "st_visible_pos (process_codes st codes) = st_visible_pos st"
  "st_current_text (process_codes st codes) = st_current_text st"
  by (simp_all add: process_codes_def reset_style_def)

lemma add_char_keeps [simp]:
  "st_segments (add_char st c) = st_segments st"
  "st_visible_pos (add_char st c) = st_visible_pos st"
  "st_fg (add_char st c) = st_fg st"
  "st_bg (add_char st c) = st_bg st"
  "st_bold (add_char st c) = st_bold st"
  by (simp_all add: add_char_def)

lemma positions_ok_save_segment: "positions_ok st \<Longrightarrow> positions_ok (save_segment st)"
  by (simp add: positions_ok_def save_segment_def contiguous_snoc)

lemma positions_ok_parse_loop: "positions_ok st \<Longrightarrow> positions_ok (parse_loop st s)"
proof (induction st s rule: parse_loop.induct)
  case (1 st)
  then show ?case by simp
next
  case (2 st c cs)
  show ?case
  proof (cases "at_introducer (c # cs)")
    case True
    have "positions_ok (process_codes (save_segment st) (fst (scan_codes (tl cs))))"
      using positions_ok_save_segment [OF "2.prems"] by (simp add: positions_ok_def)
    from "2.IH"(1) [OF True this] True show ?thesis by simp
  next
    case False
    have "positions_ok (add_char st c)"
      using "2.prems" by (simp add: positions_ok_def)
    from "2.IH"(2) [OF False this] False show ?thesis by simp
  qed
qed

lemma positions_ok_init: "positions_ok init_state"
  by (simp add: positions_ok_def init_state_def)

lemma parse_contiguous:
  "contiguous 0 (segments (parse_ansi_line_fresh line)) (visible_length (parse_ansi_line_fresh line))"
  using positions_ok_save_segment [OF positions_ok_parse_loop [OF positions_ok_init, of line]]
  by (simp add: parse_ansi_line_fresh_def finish_def positions_ok_def Let_def)

section \<open>The parser: text outside escapes\<close>

lemma parse_loop_plain: "\<not> has_introducer s \<Longrightarrow> parse_loop st s = foldl add_char st s"
  by (induction s arbitrary: st) simp_all

lemma foldl_add_char:
  "length (st_current_text st) \<le> MAX_LINE_LENGTH - 1 \<Longrightarrow>
   foldl add_char st s =
     st\<lparr>st_current_text := take (MAX_LINE_LENGTH - 1) (st_current_text st @ s)\<rparr>"
proof (induction s arbitrary: st)
  case Nil
  then show ?case by simp
next
  case (Cons c s)
  have len: "length (st_current_text (add_char st c)) \<le> MAX_LINE_LENGTH - 1"
    using Cons.prems by (simp add: add_char_def)
  show ?case
  proof (cases "length (st_current_text st) < MAX_LINE_LENGTH - 1")
    case True
    then show ?thesis using Cons.IH [OF len] by (simp add: add_char_def)
  next
    case False
    with Cons.prems have "length (st_current_text st) = MAX_LINE_LENGTH - 1" by simp
    then show ?thesis using Cons.IH [OF len] False by (simp add: add_char_def)
  qed
qed

section \<open>UTF-8\<close>

lemma continuation_byte:
  "\<forall>c::char. ((of_char c :: 8 word) AND 0xC0 = 0x80) =
     (128 \<le> (of_char c :: nat) \<and> (of_char c :: nat) < 192)"
  by code_simp

lemma utf8_strlen_Cons:
  "utf8_strlen (p # ps) =
   (if 128 \<le> (of_char p :: nat) \<and> (of_char p :: nat) < 192 then 0 else 1) + utf8_strlen ps"
  using continuation_byte by simp

lemma utf8_strlen_append: "utf8_strlen (a @ b) = utf8_strlen a + utf8_strlen b"
  by (induction a) simp_all

lemma utf8_strlen_encode: "cp < 0x110000 \<Longrightarrow> utf8_strlen (utf8_encode cp) = 1"
  unfolding utf8_encode_def
  by (simp add: utf8_strlen_Cons del: utf8_strlen.simps(2))

lemma utf8_strlen_utf8:
  "list_all (\<lambda>cp. cp < 0x110000) cps \<Longrightarrow> utf8_strlen (utf8 cps) = int (length cps)"
  by (induction cps) (simp_all add: utf8_def utf8_strlen_append utf8_strlen_encode)

lemma utf8_append: "utf8 (a @ b) = utf8 a @ utf8 b"
  by (simp add: utf8_def)

lemma utf8_encode_nonempty: "utf8_encode cp \<noteq> []"
  by (simp add: utf8_encode_def)

lemma utf8_empty_iff: "utf8 cps = [] \<longleftrightarrow> cps = []"
  by (cases cps) (simp_all add: utf8_def utf8_encode_nonempty)

lemma of_char_of_byte: "n < 256 \<Longrightarrow> (of_char (char_of n) :: nat) = n"
  by simp

lemma high_byte: "128 \<le> k \<Longrightarrow> k < 256 \<Longrightarrow> char_of (k :: nat) \<noteq> ESC"
proof
  assume k: "128 \<le> k" "k < 256" and e: "char_of k = ESC"
  from arg_cong [OF e, of "of_char :: char \<Rightarrow> nat"] k show False
    by (simp add: ESC_def)
qed

lemma low_byte: "k < 128 \<Longrightarrow> k \<noteq> 27 \<Longrightarrow> char_of (k :: nat) \<noteq> ESC"
proof
  assume k: "k < 128" "k \<noteq> 27" and e: "char_of k = ESC"
  from arg_cong [OF e, of "of_char :: char \<Rightarrow> nat"] k show False
    by (simp add: ESC_def)
qed

lemma continuation_no_ESC: "x < 64 \<Longrightarrow> char_of (0x80 + x :: nat) \<noteq> ESC"
  by (rule high_byte) simp_all

lemma utf8_encode_no_ESC: "cp \<noteq> 27 \<Longrightarrow> cp < 0x110000 \<Longrightarrow> ESC \<notin> set (utf8_encode cp)"
proof -
  assume cp: "cp \<noteq> 27" "cp < 0x110000"
  have c1: "char_of (0x80 + cp mod 64) \<noteq> ESC"
    and c2: "char_of (0x80 + cp div 64 mod 64) \<noteq> ESC"
    and c3: "char_of (0x80 + cp div 4096 mod 64) \<noteq> ESC"
    by (rule continuation_no_ESC, simp)+
  consider "cp < 0x80" | "0x80 \<le> cp" "cp < 0x800" | "0x800 \<le> cp" "cp < 0x10000"
    | "0x10000 \<le> cp" by linarith
  then show ?thesis
  proof cases
    case 1
    with cp(1) have "char_of cp \<noteq> ESC" by (intro low_byte) simp_all
    with 1 show ?thesis by (simp add: utf8_encode_def)
  next
    case 2
    then have "cp div 64 < 32" by (simp add: less_mult_imp_div_less)
    then have "char_of (0xC0 + cp div 64) \<noteq> ESC" by (intro high_byte) simp_all
    with 2 c1 show ?thesis by (simp add: utf8_encode_def)
  next
    case 3
    then have "cp div 4096 < 16" by (simp add: less_mult_imp_div_less)
    then have "char_of (0xE0 + cp div 4096) \<noteq> ESC" by (intro high_byte) simp_all
    with 3 c1 c2 show ?thesis by (simp add: utf8_encode_def)
  next
    case 4
    from cp(2) have "cp div 262144 < 8" by (simp add: less_mult_imp_div_less)
    then have "char_of (0xF0 + cp div 262144) \<noteq> ESC" by (intro high_byte) simp_all
    with 4 c1 c2 c3 show ?thesis by (simp add: utf8_encode_def)
  qed
qed

lemma scalar_bound: "unicode_scalar cp \<Longrightarrow> cp < 0x110000"
  by (auto simp: unicode_scalar_def)

lemma utf8_no_ESC:
  "list_all (\<lambda>cp. unicode_scalar cp \<and> cp \<noteq> 27) cps \<Longrightarrow> ESC \<notin> set (utf8 cps)"
  by (induction cps) (auto simp: utf8_def utf8_encode_no_ESC scalar_bound)

section \<open>The parser: runs of characters and SGR escapes\<close>

lemma parse_loop_text:
  "ESC \<notin> set s \<Longrightarrow> parse_loop st (s @ rest) = parse_loop (foldl add_char st s) rest"
proof (induction s arbitrary: st)
  case Nil
  then show ?case by simp
next
  case (Cons c s)
  then have "\<not> at_introducer (c # s @ rest)"
    by (auto simp: at_introducer_def split: list.splits)
  with Cons show ?case by simp
qed

lemma scan_codes_terminated:
  "CHR ''m'' \<notin> set codes \<Longrightarrow> length codes \<le> 63 \<Longrightarrow>
   scan_codes (codes @ CHR ''m'' # rest) = (codes, rest)"
proof -
  assume nom: "CHR ''m'' \<notin> set codes" and len: "length codes \<le> 63"
  from nom have "\<And>x. x \<in> set codes \<Longrightarrow> x \<noteq> CHR ''m''" by auto
  then have tw: "takeWhile (\<lambda>c. c \<noteq> CHR ''m'') (codes @ CHR ''m'' # rest) = codes"
    by (simp add: takeWhile_append2)
  from len have tk: "take 63 codes = codes" by simp
  show ?thesis unfolding scan_codes_def Let_def tw tk by simp
qed

lemma parse_loop_sgr:
  "CHR ''m'' \<notin> set codes \<Longrightarrow> length codes \<le> 63 \<Longrightarrow>
   parse_loop st (ESC # CHR ''['' # codes @ CHR ''m'' # rest) =
   parse_loop (process_codes (save_segment st) codes) rest"
  by (simp add: at_introducer_def scan_codes_terminated)

lemma foldl_add_char_text:
  "length (st_current_text st) + length s < MAX_LINE_LENGTH \<Longrightarrow>
   foldl add_char st s = st\<lparr>st_current_text := st_current_text st @ s\<rparr>"
proof -
  assume len: "length (st_current_text st) + length s < MAX_LINE_LENGTH"
  then have "length (st_current_text st) \<le> MAX_LINE_LENGTH - 1" by simp
  from foldl_add_char [OF this, of s] len show ?thesis by simp
qed

lemma valid_chars_bound:
  "list_all (\<lambda>cp. unicode_scalar cp \<and> cp \<noteq> 27) cps \<Longrightarrow> list_all (\<lambda>cp. cp < 0x110000) cps"
  by (induction cps) (simp_all add: scalar_bound)

lemma parse_items:
  assumes "list_all valid_item items"
    and "list_all (\<lambda>cp. cp < 0x110000) cur"
    and "st_current_text st = utf8 cur"
    and "length (utf8 cur) + length (render_line items) < MAX_LINE_LENGTH"
    and "length (st_segments st) + length (runs_from cur items) \<le> MAX_SEGMENTS"
  shows "placed (st_segments (save_segment (parse_loop st (render_line items)))) =
      placed (st_segments st) @ place (st_visible_pos st) (runs_from cur items) \<and>
    st_visible_pos (save_segment (parse_loop st (render_line items))) =
      st_visible_pos st + int (length (concat (runs_from cur items)))"
  using assms
proof (induction items arbitrary: st cur)
  case Nil
  show ?case
  proof (cases "cur = []")
    case True
    with Nil.prems(3) show ?thesis
      by (simp add: render_line_def save_segment_def utf8_def)
  next
    case False
    then have ne: "utf8 cur \<noteq> []" by (simp add: utf8_empty_iff)
    from Nil.prems(5) False have lt: "length (st_segments st) < MAX_SEGMENTS" by simp
    from ne lt Nil.prems(3) False utf8_strlen_utf8 [OF Nil.prems(2)] show ?thesis
      by (simp add: render_line_def save_segment_def placed_def)
  qed
next
  case (Cons item items)
  show ?case
  proof (cases item)
    case (Chars cps)
    with Cons.prems(1) have v: "list_all (\<lambda>cp. unicode_scalar cp \<and> cp \<noteq> 27) cps"
      and vs: "list_all valid_item items" by simp_all
    let ?st = "st\<lparr>st_current_text := utf8 (cur @ cps)\<rparr>"
    have line: "render_line (item # items) = utf8 cps @ render_line items"
      by (simp add: render_line_def Chars)
    from Cons.prems(3,4) have "length (st_current_text st) + length (utf8 cps) < MAX_LINE_LENGTH"
      by (simp add: line)
    from foldl_add_char_text [OF this] Cons.prems(3)
    have step: "foldl add_char st (utf8 cps) = ?st" by (simp add: utf8_append)
    have loop: "parse_loop st (render_line (item # items)) = parse_loop ?st (render_line items)"
      unfolding line by (simp add: parse_loop_text [OF utf8_no_ESC [OF v]] step)
    have a: "list_all (\<lambda>cp. cp < 0x110000) (cur @ cps)"
      using Cons.prems(2) valid_chars_bound [OF v] by simp
    have b: "st_current_text ?st = utf8 (cur @ cps)" by simp
    have c: "length (utf8 (cur @ cps)) + length (render_line items) < MAX_LINE_LENGTH"
      using Cons.prems(4) by (simp add: line utf8_append)
    have d: "length (st_segments ?st) + length (runs_from (cur @ cps) items) \<le> MAX_SEGMENTS"
      using Cons.prems(5) by (simp add: Chars)
    from Cons.IH [OF vs a b c d] show ?thesis
      unfolding loop by (simp add: Chars)
  next
    case (Sgr codes)
    with Cons.prems(1) have v: "CHR ''m'' \<notin> set codes" "length codes \<le> 63"
      and vs: "list_all valid_item items" by simp_all
    let ?st = "process_codes (save_segment st) codes"
    have line: "render_line (item # items) = ESC # CHR ''['' # codes @ CHR ''m'' # render_line items"
      by (simp add: render_line_def Sgr)
    have loop: "parse_loop st (render_line (item # items)) = parse_loop ?st (render_line items)"
      unfolding line by (rule parse_loop_sgr [OF v])
    show ?thesis
    proof (cases "cur = []")
      case True
      with Cons.prems(3) have same: "save_segment st = st"
        by (simp add: save_segment_def utf8_def)
      have a: "list_all (\<lambda>cp. cp < 0x110000) []" by simp
      have b: "st_current_text ?st = utf8 []"
        using Cons.prems(3) True by (simp add: same)
      have c: "length (utf8 ([] :: nat list)) + length (render_line items) < MAX_LINE_LENGTH"
        using Cons.prems(4) by (simp add: line utf8_def)
      have d: "length (st_segments ?st) + length (runs_from [] items) \<le> MAX_SEGMENTS"
        using Cons.prems(5) True by (simp add: Sgr same)
      from Cons.IH [OF vs a b c d] show ?thesis
        unfolding loop by (simp add: Sgr True same)
    next
      case False
      then have ne: "utf8 cur \<noteq> []" by (simp add: utf8_empty_iff)
      from Cons.prems(5) False have lt: "length (st_segments st) < MAX_SEGMENTS"
        by (simp add: Sgr)
      have seg: "placed (st_segments (save_segment st)) =
          placed (st_segments st) @ [(utf8 cur, st_visible_pos st)]"
        "st_visible_pos (save_segment st) = st_visible_pos st + int (length cur)"
        "st_current_text (save_segment st) = []"
        "length (st_segments (save_segment st)) = Suc (length (st_segments st))"
        using ne lt Cons.prems(3) utf8_strlen_utf8 [OF Cons.prems(2)]
        by (simp_all add: save_segment_def placed_def)
      have a: "list_all (\<lambda>cp. cp < 0x110000) []" by simp
      have b: "st_current_text ?st = utf8 []" by (simp add: seg utf8_def)
      have c: "length (utf8 ([] :: nat list)) + length (render_line items) < MAX_LINE_LENGTH"
        using Cons.prems(4) by (simp add: line utf8_def)
      have d: "length (st_segments ?st) + length (runs_from [] items) \<le> MAX_SEGMENTS"
        using Cons.prems(5) False by (simp add: Sgr seg)
      from Cons.IH [OF vs a b c d] show ?thesis
        unfolding loop by (simp add: Sgr False seg)
    qed
  qed
qed

lemma parse_ansi_line_items:
  assumes "list_all valid_item items"
    and "length (render_line items) < MAX_LINE_LENGTH"
    and "length (runs items) \<le> MAX_SEGMENTS"
  shows "placed (segments (parse_ansi_line_fresh (render_line items))) = place 0 (runs items) \<and>
    visible_length (parse_ansi_line_fresh (render_line items)) =
      int (length (concat (runs items)))"
proof -
  have "placed (st_segments (save_segment (parse_loop init_state (render_line items)))) =
      placed (st_segments init_state) @ place (st_visible_pos init_state) (runs_from [] items) \<and>
    st_visible_pos (save_segment (parse_loop init_state (render_line items))) =
      st_visible_pos init_state + int (length (concat (runs_from [] items)))"
    by (rule parse_items) (use assms in \<open>simp_all add: init_state_def utf8_def runs_def\<close>)
  then show ?thesis
    by (simp add: parse_ansi_line_fresh_def finish_def Let_def init_state_def runs_def placed_def)
qed

section \<open>The parser: what the segments hold\<close>

lemma seen_save_segment: "seen (save_segment st) = seen st"
  by (simp add: seen_def save_segment_def)

lemma seen_process_codes: "seen (process_codes st codes) = seen st"
  by (simp add: seen_def)

lemma seen_add_char: "subseq (seen (add_char st c)) (seen st @ [c])"
proof -
  have "subseq (seen st) (seen st @ [c])" by (rule subseq_rev_drop_many) simp
  then show ?thesis by (auto simp: seen_def add_char_def)
qed

lemma scan_codes_suffix: "suffix (snd (scan_codes body)) body"
proof -
  let ?r = "drop (length (take 63 (takeWhile (\<lambda>c. c \<noteq> CHR ''m'') body))) body"
  have r: "suffix ?r body" by (rule suffix_drop)
  have "suffix (snd (scan_codes body)) ?r"
    by (cases ?r) (auto simp: scan_codes_def Let_def suffix_ConsI)
  with r show ?thesis by (rule suffix_order.trans [rotated])
qed

lemma parse_loop_subseq: "subseq (seen (parse_loop st s)) (seen st @ s)"
proof (induction st s rule: parse_loop.induct)
  case (1 st)
  then show ?case by simp
next
  case (2 st c cs)
  show ?case
  proof (cases "at_introducer (c # cs)")
    case True
    let ?st = "process_codes (save_segment st) (fst (scan_codes (tl cs)))"
    let ?rest = "snd (scan_codes (tl cs))"
    have "suffix ?rest (tl cs)" by (rule scan_codes_suffix)
    then have "suffix ?rest (c # cs)"
      by (meson suffix_ConsI suffix_order.trans suffix_tl)
    then have "subseq ?rest (c # cs)" by (rule suffix_imp_subseq)
    then have "subseq (seen st @ ?rest) (seen st @ c # cs)" by (simp add: subseq_append')
    moreover have "subseq (seen (parse_loop ?st ?rest)) (seen st @ ?rest)"
      using "2.IH"(1) [OF True] by (simp add: seen_process_codes seen_save_segment)
    ultimately have "subseq (seen (parse_loop ?st ?rest)) (seen st @ c # cs)"
      by (rule subseq_order.trans [rotated])
    with True show ?thesis by simp
  next
    case False
    have "subseq (seen (add_char st c) @ cs) ((seen st @ [c]) @ cs)"
      using seen_add_char [of st c] by (intro list_emb_append_mono) simp_all
    with "2.IH"(2) [OF False]
    have "subseq (seen (parse_loop (add_char st c) cs)) ((seen st @ [c]) @ cs)"
      by (rule subseq_order.trans)
    with False show ?thesis by simp
  qed
qed

lemma parse_ansi_line_subseq:
  "subseq (concat (map seg_text (segments (parse_ansi_line_fresh line)))) line"
proof -
  let ?st = "save_segment (parse_loop init_state line)"
  have "subseq (seen ?st) line"
    using parse_loop_subseq [of init_state line]
    by (simp add: seen_save_segment) (simp add: seen_def init_state_def)
  moreover have "subseq (concat (map seg_text (st_segments ?st))) (seen ?st)"
    by (simp add: seen_def subseq_rev_drop_many)
  ultimately have "subseq (concat (map seg_text (st_segments ?st))) line"
    by (rule subseq_order.trans [rotated])
  then show ?thesis by (simp add: parse_ansi_line_fresh_def finish_def Let_def)
qed

lemma parse_ansi_line_on_miss:
  "cache_miss g line_hash config_hash prior \<Longrightarrow>
   snd (parse_ansi_line g now line line_hash config_hash prior) =
     Loaded (parse_ansi_line_fresh line)"
proof (cases line_hash)
  case None
  then show ?thesis by (simp add: parse_ansi_line_def)
next
  case (Some lh)
  note lh = this
  assume miss: "cache_miss g line_hash config_hash prior"
  show ?thesis
  proof (cases config_hash)
    case None
    with lh show ?thesis by (simp add: parse_ansi_line_def)
  next
    case (Some ch)
    show ?thesis
    proof (cases "lh = [] \<or> ch = []")
      case True
      with lh Some show ?thesis by (auto simp: parse_ansi_line_def Let_def)
    next
      case False
      with miss lh Some have "snd (load_line_cache g (get_cache_key lh ch) prior) = Miss"
        by (simp add: cache_miss_def)
      then obtain g' where "load_line_cache g (get_cache_key lh ch) prior = (g', Miss)"
        by (cases "load_line_cache g (get_cache_key lh ch) prior") simp
      with False lh Some show ?thesis by (simp add: parse_ansi_line_def Let_def)
    qed
  qed
qed

text \<open>
  Claim C5. Every record computed by the parse (lines 138-263, not the cache) has segment
  positions in non-decreasing order, every segment's position plus its code-point length
  within \<open>visible_length\<close>, and segments that tile the visible columns: the first starts
  at 0, each next one starts where the previous one ends, and the last one ends at
  \<open>visible_length\<close>. The texts of the segments, in order, are a subsequence of the line.
  Lengths are what \<open>utf8_strlen\<close> counts, which on the UTF-8 encoding of a list of code
  points is the number of code points. For a line made of character runs and SGR escapes
  that stays within the buffer and the segment array, the segments are exactly the
  non-empty runs of characters between escapes, each at the number of code points before
  it, and \<open>visible_length\<close> is the number of code points of the line outside escapes.
\<close>

theorem parse_ansi_line_partition:
  "sorted (map visible_pos (segments (parse_ansi_line_fresh line))) \<and>
   (\<forall>s \<in> set (segments (parse_ansi_line_fresh line)).
      0 \<le> visible_pos s \<and>
      visible_pos s + utf8_strlen (seg_text s) \<le> visible_length (parse_ansi_line_fresh line)) \<and>
   contiguous 0 (segments (parse_ansi_line_fresh line)) (visible_length (parse_ansi_line_fresh line)) \<and>
   subseq (concat (map seg_text (segments (parse_ansi_line_fresh line)))) line \<and>
   (list_all (\<lambda>cp. cp < 0x110000) cps \<longrightarrow> utf8_strlen (utf8 cps) = int (length cps)) \<and>
   (list_all valid_item items \<longrightarrow> length (render_line items) < MAX_LINE_LENGTH \<longrightarrow>
    length (runs items) \<le> MAX_SEGMENTS \<longrightarrow>
      placed (segments (parse_ansi_line_fresh (render_line items))) = place 0 (runs items) \<and>
      visible_length (parse_ansi_line_fresh (render_line items)) =
        int (length (concat (runs items))))"
proof -
  note c = parse_contiguous [of line]
  have a: "sorted (map visible_pos (segments (parse_ansi_line_fresh line)))"
    by (rule contiguous_sorted [OF c])
  have b: "\<forall>s \<in> set (segments (parse_ansi_line_fresh line)).
      0 \<le> visible_pos s \<and>
      visible_pos s + utf8_strlen (seg_text s) \<le> visible_length (parse_ansi_line_fresh line)"
    using contiguous_bounds [OF c] by blast
  have d: "subseq (concat (map seg_text (segments (parse_ansi_line_fresh line)))) line"
    by (rule parse_ansi_line_subseq)
  have e: "list_all (\<lambda>cp. cp < 0x110000) cps \<longrightarrow> utf8_strlen (utf8 cps) = int (length cps)"
    using utf8_strlen_utf8 [of cps] by blast
  have f: "list_all valid_item items \<longrightarrow> length (render_line items) < MAX_LINE_LENGTH \<longrightarrow>
    length (runs items) \<le> MAX_SEGMENTS \<longrightarrow>
      placed (segments (parse_ansi_line_fresh (render_line items))) = place 0 (runs items) \<and>
      visible_length (parse_ansi_line_fresh (render_line items)) =
        int (length (concat (runs items)))"
    using parse_ansi_line_items [of items] by blast
  show ?thesis
    by (rule conjI [OF a conjI [OF b conjI [OF c conjI [OF d conjI [OF e f]]]]])
qed

lemma example_items:
  "render_line [Chars [0x61, 0xE9], Sgr ''31'', Chars [0x4E2D, 0x62]] =
     [CHR 0x61, CHR 0xC3, CHR 0xA9, ESC, CHR ''['', CHR ''3'', CHR ''1'', CHR ''m'',
      CHR 0xE4, CHR 0xB8, CHR 0xAD, CHR 0x62]"
  "place 0 (runs [Chars [0x61, 0xE9], Sgr ''31'', Chars [0x4E2D, 0x62]]) =
     [([CHR 0x61, CHR 0xC3, CHR 0xA9], 0), ([CHR 0xE4, CHR 0xB8, CHR 0xAD, CHR 0x62], 2)]"
  "list_all valid_item [Chars [0x61, 0xE9], Sgr ''31'', Chars [0x4E2D, 0x62]]"
  "length (runs [Chars [0x61, 0xE9], Sgr ''31'', Chars [0x4E2D, 0x62]]) = 2"
  "length (concat (runs [Chars [0x61, 0xE9], Sgr ''31'', Chars [0x4E2D, 0x62]])) = 4"
  by (simp_all add: render_line_def runs_def utf8_def utf8_encode_def unicode_scalar_def
      char_of_eq_iff)

theorem parse_ansi_line_partition_witness:
  "placed (segments (parse_ansi_line_fresh
      [CHR 0x61, CHR 0xC3, CHR 0xA9, ESC, CHR ''['', CHR ''3'', CHR ''1'', CHR ''m'',
       CHR 0xE4, CHR 0xB8, CHR 0xAD, CHR 0x62])) =
     [([CHR 0x61, CHR 0xC3, CHR 0xA9], 0), ([CHR 0xE4, CHR 0xB8, CHR 0xAD, CHR 0x62], 2)] \<and>
   visible_length (parse_ansi_line_fresh
      [CHR 0x61, CHR 0xC3, CHR 0xA9, ESC, CHR ''['', CHR ''3'', CHR ''1'', CHR ''m'',
       CHR 0xE4, CHR 0xB8, CHR 0xAD, CHR 0x62]) = 4"
proof -
  let ?items = "[Chars [0x61, 0xE9], Sgr ''31'', Chars [0x4E2D, 0x62]]"
  have len: "length (render_line ?items) < MAX_LINE_LENGTH"
    by (simp add: example_items(1) MAX_LINE_LENGTH_def)
  have n: "length (runs ?items) \<le> MAX_SEGMENTS"
    by (simp add: example_items(4) MAX_SEGMENTS_def)
  from parse_ansi_line_partition [where items = ?items and line = "[]" and cps = "[]"] example_items(3) len n
  have "placed (segments (parse_ansi_line_fresh (render_line ?items))) = place 0 (runs ?items) \<and>
      visible_length (parse_ansi_line_fresh (render_line ?items)) =
        int (length (concat (runs ?items)))"
    by blast
  then show ?thesis
    by (simp only: example_items) simp
qed

section \<open>The parser: lines without an escape introducer\<close>

text \<open>
  Claim C4, as the code has it. When the record is computed (lines 138-263), a line with
  no ESC \<open>[\<close> pair that is not empty gives exactly one segment, at position 0 and in
  the default style (foreground \<open>TEXT_COLOR\<close>, empty background, bold off); its text is
  the line cut to the \<open>MAX_LINE_LENGTH - 1\<close> bytes the buffer holds, and
  \<open>visible_length\<close> is what \<open>utf8_strlen\<close> counts in that text. The empty line gives no
  segment and \<open>visible_length\<close> 0. That record is what \<open>parse_ansi_line\<close> returns when a
  hash is missing or empty or the cache lookup misses. When the line is the UTF-8
  encoding of a list of code points and has fewer than \<open>MAX_LINE_LENGTH\<close> bytes,
  \<open>visible_length\<close> is the number of those code points.
\<close>

theorem parse_ansi_line_plain:
  "\<not> has_introducer line \<Longrightarrow>
   parse_ansi_line_fresh line =
     (if line = [] then \<lparr>segments = [], visible_length = 0\<rparr>
      else \<lparr>segments =
              [\<lparr>seg_text = take (MAX_LINE_LENGTH - 1) line, fg_color = TEXT_COLOR,
                bg_color = [], bold = 0, visible_pos = 0\<rparr>],
            visible_length = utf8_strlen (take (MAX_LINE_LENGTH - 1) line)\<rparr>) \<and>
   (cache_miss g line_hash config_hash prior \<longrightarrow>
      snd (parse_ansi_line g now line line_hash config_hash prior) =
        Loaded (parse_ansi_line_fresh line)) \<and>
   (list_all (\<lambda>cp. cp < 0x110000) cps \<longrightarrow> line = utf8 cps \<longrightarrow> length line < MAX_LINE_LENGTH \<longrightarrow>
      visible_length (parse_ansi_line_fresh line) = int (length cps))"
proof -
  assume plain: "\<not> has_introducer line"
  have "parse_loop init_state line =
      init_state\<lparr>st_current_text := take (MAX_LINE_LENGTH - 1) line\<rparr>"
    using foldl_add_char [of init_state line] parse_loop_plain [OF plain, of init_state]
    by (simp add: init_state_def)
  then have a: "parse_ansi_line_fresh line =
     (if line = [] then \<lparr>segments = [], visible_length = 0\<rparr>
      else \<lparr>segments =
              [\<lparr>seg_text = take (MAX_LINE_LENGTH - 1) line, fg_color = TEXT_COLOR,
                bg_color = [], bold = 0, visible_pos = 0\<rparr>],
            visible_length = utf8_strlen (take (MAX_LINE_LENGTH - 1) line)\<rparr>)"
    by (simp add: parse_ansi_line_fresh_def finish_def save_segment_def init_state_def
        MAX_SEGMENTS_def MAX_LINE_LENGTH_def Let_def)
  have c: "visible_length (parse_ansi_line_fresh line) = int (length cps)"
    if v: "list_all (\<lambda>cp. cp < 0x110000) cps" and l: "line = utf8 cps"
      and n: "length line < MAX_LINE_LENGTH"
  proof (cases "line = []")
    case True
    with l have "utf8 cps = []" by simp
    then have "cps = []" by (simp add: utf8_empty_iff)
    with True a show ?thesis by simp
  next
    case False
    from n have "take (MAX_LINE_LENGTH - 1) line = line" by simp
    with False a utf8_strlen_utf8 [OF v] l show ?thesis by simp
  qed
  from a c parse_ansi_line_on_miss [of g line_hash config_hash prior now line]
  show ?thesis by blast
qed

lemma example_miss: "cache_miss example_globals (Some ''1'') (Some ''2'') (\<lambda>i. stale_segment)"
  by (simp add: cache_miss_def load_line_cache_def json_load_file_def example_globals_def
      get_cache_key_def MAX_PATH_LENGTH_def MAX_CACHE_KEY_LENGTH_def)

lemma example_utf8: "utf8 [0xE9, 0x4E2D] = [CHR 0xC3, CHR 0xA9, CHR 0xE4, CHR 0xB8, CHR 0xAD]"
  by (simp add: utf8_def utf8_encode_def char_of_eq_iff)

theorem parse_ansi_line_plain_witness:
  "snd (parse_ansi_line example_globals 0 ''a|b'' (Some ''1'') (Some ''2'') (\<lambda>i. stale_segment)) =
     Loaded \<lparr>segments = [\<lparr>seg_text = ''a|b'', fg_color = ''#ffffff'', bg_color = [], bold = 0,
                          visible_pos = 0\<rparr>],
             visible_length = 3\<rparr> \<and>
   parse_ansi_line_fresh [CHR 0xC3, CHR 0xA9, CHR 0xE4, CHR 0xB8, CHR 0xAD] =
     \<lparr>segments = [\<lparr>seg_text = [CHR 0xC3, CHR 0xA9, CHR 0xE4, CHR 0xB8, CHR 0xAD],
                   fg_color = ''#ffffff'', bg_color = [], bold = 0, visible_pos = 0\<rparr>],
      visible_length = 2\<rparr> \<and>
   parse_ansi_line_fresh [] = \<lparr>segments = [], visible_length = 0\<rparr>"
proof -
  have p1: "\<not> has_introducer ''a|b''" by (simp add: at_introducer_def)
  from parse_ansi_line_plain [OF p1, where g = example_globals and line_hash = "Some ''1''" and
      config_hash = "Some ''2''" and prior = "\<lambda>i. stale_segment" and cps = "[]" and now = 0]
    example_miss
  have a: "snd (parse_ansi_line example_globals 0 ''a|b'' (Some ''1'') (Some ''2'')
      (\<lambda>i. stale_segment)) =
     Loaded \<lparr>segments = [\<lparr>seg_text = ''a|b'', fg_color = ''#ffffff'', bg_color = [], bold = 0,
                          visible_pos = 0\<rparr>],
             visible_length = 3\<rparr>"
    by (simp add: MAX_LINE_LENGTH_def TEXT_COLOR_def)
  have p2: "\<not> has_introducer [CHR 0xC3, CHR 0xA9, CHR 0xE4, CHR 0xB8, CHR 0xAD]"
    by (simp add: at_introducer_def ESC_def)
  from parse_ansi_line_plain [OF p2, where g = example_globals and line_hash = None and config_hash = None
      and prior = "\<lambda>i. stale_segment" and cps = "[0xE9, 0x4E2D]" and now = 0]
  have b: "parse_ansi_line_fresh [CHR 0xC3, CHR 0xA9, CHR 0xE4, CHR 0xB8, CHR 0xAD] =
     \<lparr>segments = [\<lparr>seg_text = [CHR 0xC3, CHR 0xA9, CHR 0xE4, CHR 0xB8, CHR 0xAD],
                   fg_color = ''#ffffff'', bg_color = [], bold = 0, visible_pos = 0\<rparr>],
      visible_length = 2\<rparr>"
    by (simp add: example_utf8 MAX_LINE_LENGTH_def TEXT_COLOR_def)
  have p3: "\<not> has_introducer []" by simp
  from parse_ansi_line_plain [OF p3, where g = example_globals and line_hash = None and config_hash = None
      and prior = "\<lambda>i. stale_segment" and cps = "[]" and now = 0]
  have c: "parse_ansi_line_fresh [] = \<lparr>segments = [], visible_length = 0\<rparr>"
    by simp
  from a b c show ?thesis by simp
qed

text \<open>The empty line has no introducer and gives no segment, not one.\<close>

theorem parse_ansi_line_empty_counterexample:
  "\<not> has_introducer [] \<and> segment_count (parse_ansi_line_fresh []) = 0"
  by (simp add: parse_ansi_line_fresh_def finish_def save_segment_def init_state_def
      segment_count_def)

section \<open>The parser: the segment cap\<close>

lemma save_segment_full:
  "MAX_SEGMENTS \<le> length (st_segments st) \<Longrightarrow> save_segment st = st"
  by (simp add: save_segment_def)

lemma parse_loop_full:
  "MAX_SEGMENTS \<le> length (st_segments st) \<Longrightarrow>
   st_segments (parse_loop st s) = st_segments st \<and>
   st_visible_pos (parse_loop st s) = st_visible_pos st"
proof (induction st s rule: parse_loop.induct)
  case (1 st)
  then show ?case by simp
next
  case (2 st c cs)
  show ?case
  proof (cases "at_introducer (c # cs)")
    case True
    let ?st' = "process_codes (save_segment st) (fst (scan_codes (tl cs)))"
    have keep: "st_segments ?st' = st_segments st" "st_visible_pos ?st' = st_visible_pos st"
      using "2.prems" by (simp_all add: save_segment_full)
    then have "MAX_SEGMENTS \<le> length (st_segments ?st')" using "2.prems" by simp
    from "2.IH"(1) [OF True this] keep True show ?thesis by simp
  next
    case False
    have "MAX_SEGMENTS \<le> length (st_segments (add_char st c))" using "2.prems" by simp
    from "2.IH"(2) [OF False this] False show ?thesis by simp
  qed
qed

lemma save_segment_count: 
  "length (st_segments st) \<le> MAX_SEGMENTS \<Longrightarrow> length (st_segments (save_segment st)) \<le> MAX_SEGMENTS"
  by (simp add: save_segment_def)

lemma parse_loop_count:
  "length (st_segments st) \<le> MAX_SEGMENTS \<Longrightarrow>
   length (st_segments (parse_loop st s)) \<le> MAX_SEGMENTS"
proof (induction st s rule: parse_loop.induct)
  case (1 st)
  then show ?case by simp
next
  case (2 st c cs)
  show ?case
  proof (cases "at_introducer (c # cs)")
    case True
    have "length (st_segments (process_codes (save_segment st) (fst (scan_codes (tl cs)))))
        \<le> MAX_SEGMENTS"
      using save_segment_count [OF "2.prems"] by simp
    from "2.IH"(1) [OF True this] True show ?thesis by simp
  next
    case False
    have "length (st_segments (add_char st c)) \<le> MAX_SEGMENTS" using "2.prems" by simp
    from "2.IH"(2) [OF False this] False show ?thesis by simp
  qed
qed

text \<open>
  Claim C10. Once \<open>MAX_SEGMENTS\<close> segments have been written, whatever input follows
  changes neither the segments nor the visible position: the record returned has
  exactly the segments and the position reached at that point. For every line the
  result has at most \<open>MAX_SEGMENTS\<close> segments, and \<open>visible_length\<close> is the sum of the
  code-point lengths of the segments that were written, so suppressed text does not
  count.
\<close>

theorem parse_ansi_line_cap:
  "length (st_segments st) = MAX_SEGMENTS \<Longrightarrow>
   finish (parse_loop st rest) =
     \<lparr>segments = st_segments st, visible_length = st_visible_pos st\<rparr> \<and>
   segment_count (parse_ansi_line_fresh line) \<le> MAX_SEGMENTS \<and>
   visible_length (parse_ansi_line_fresh line) =
     sum_list (map (\<lambda>s. utf8_strlen (seg_text s)) (segments (parse_ansi_line_fresh line)))"
proof -
  assume full: "length (st_segments st) = MAX_SEGMENTS"
  then have le: "MAX_SEGMENTS \<le> length (st_segments st)" by simp
  from parse_loop_full [OF le, of rest]
  have keep: "st_segments (parse_loop st rest) = st_segments st"
    "st_visible_pos (parse_loop st rest) = st_visible_pos st" by simp_all
  then have "save_segment (parse_loop st rest) = parse_loop st rest"
    using le by (simp add: save_segment_full)
  with keep have a: "finish (parse_loop st rest) =
     \<lparr>segments = st_segments st, visible_length = st_visible_pos st\<rparr>"
    by (simp add: finish_def)
  have "length (st_segments init_state) \<le> MAX_SEGMENTS" by (simp add: init_state_def)
  from save_segment_count [OF parse_loop_count [OF this, of line]]
  have b: "segment_count (parse_ansi_line_fresh line) \<le> MAX_SEGMENTS"
    by (simp add: segment_count_def parse_ansi_line_fresh_def finish_def Let_def)
  from contiguous_sum [OF parse_contiguous [of line]]
  have c: "visible_length (parse_ansi_line_fresh line) =
     sum_list (map (\<lambda>s. utf8_strlen (seg_text s)) (segments (parse_ansi_line_fresh line)))"
    by simp
  from a b c show ?thesis by simp
qed

text \<open>A line of 1000 one-letter runs, each closed by ESC \<open>[m\<close>, fills the array; the
  text after it is suppressed.\<close>

lemma parse_loop_unit:
  "parse_loop st (CHR ''a'' # ESC # CHR ''['' # CHR ''m'' # rest) =
   parse_loop (reset_style (save_segment (add_char st (CHR ''a'')))) rest"
  by (simp add: at_introducer_def ESC_def scan_codes_def process_codes_def)

lemma unit_step:
  "st_current_text st = [] \<Longrightarrow> length (st_segments st) < MAX_SEGMENTS \<Longrightarrow>
   length (st_segments (reset_style (save_segment (add_char st (CHR ''a''))))) =
     Suc (length (st_segments st)) \<and>
   st_visible_pos (reset_style (save_segment (add_char st (CHR ''a'')))) = st_visible_pos st + 1 \<and>
   st_current_text (reset_style (save_segment (add_char st (CHR ''a'')))) = []"
  by (simp add: reset_style_def save_segment_def add_char_def MAX_LINE_LENGTH_def)

lemma parse_loop_units:
  "st_current_text st = [] \<Longrightarrow> length (st_segments st) + n \<le> MAX_SEGMENTS \<Longrightarrow>
   \<exists>st'. (\<forall>rest. parse_loop st (concat (replicate n (CHR ''a'' # ESC # ''[m'')) @ rest) =
                  parse_loop st' rest) \<and>
         length (st_segments st') = length (st_segments st) + n \<and>
         st_visible_pos st' = st_visible_pos st + int n \<and>
         st_current_text st' = []"
proof (induction n arbitrary: st)
  case 0
  then show ?case by auto
next
  case (Suc n)
  let ?st1 = "reset_style (save_segment (add_char st (CHR ''a'')))"
  from Suc.prems have lt: "length (st_segments st) < MAX_SEGMENTS" by simp
  note u = unit_step [OF Suc.prems(1) lt]
  have "st_current_text ?st1 = []" "length (st_segments ?st1) + n \<le> MAX_SEGMENTS"
    using u Suc.prems(2) by simp_all
  from Suc.IH [OF this] obtain st' where
    st': "\<forall>rest. parse_loop ?st1 (concat (replicate n (CHR ''a'' # ESC # ''[m'')) @ rest) =
                  parse_loop st' rest"
      "length (st_segments st') = length (st_segments ?st1) + n"
      "st_visible_pos st' = st_visible_pos ?st1 + int n"
      "st_current_text st' = []"
    by blast
  have "\<forall>rest. parse_loop st (concat (replicate (Suc n) (CHR ''a'' # ESC # ''[m'')) @ rest) =
                  parse_loop st' rest"
    using st'(1) by (simp add: parse_loop_unit del: parse_loop.simps)
  with st'(2-4) u show ?case by (intro exI [of _ st']) simp
qed

theorem parse_ansi_line_cap_witness:
  "segment_count (parse_ansi_line_fresh
      (concat (replicate 1000 (CHR ''a'' # ESC # ''[m'')) @ ''tail'')) = 1000 \<and>
   visible_length (parse_ansi_line_fresh
      (concat (replicate 1000 (CHR ''a'' # ESC # ''[m'')) @ ''tail'')) = 1000"
proof -
  have "st_current_text init_state = []" "length (st_segments init_state) + 1000 \<le> MAX_SEGMENTS"
    by (simp_all add: init_state_def MAX_SEGMENTS_def)
  from parse_loop_units [OF this] obtain st' where
    run: "parse_loop init_state (concat (replicate 1000 (CHR ''a'' # ESC # ''[m'')) @ ''tail'') =
            parse_loop st' ''tail''"
    and full: "length (st_segments st') = MAX_SEGMENTS"
    and pos: "st_visible_pos st' = 1000"
    by (auto simp: init_state_def MAX_SEGMENTS_def)
  from parse_ansi_line_cap [OF full, of "''tail''"]
  have "finish (parse_loop st' ''tail'') =
      \<lparr>segments = st_segments st', visible_length = st_visible_pos st'\<rparr>"
    by simp
  with run full pos show ?thesis
    by (simp add: parse_ansi_line_fresh_def segment_count_def MAX_SEGMENTS_def)
qed

section \<open>The parser: escapes without a terminator\<close>

lemma scan_codes_unterminated:
  "CHR ''m'' \<notin> set body \<Longrightarrow> scan_codes body = (take 63 body, drop 63 body)"
proof -
  assume nom: "CHR ''m'' \<notin> set body"
  then have tw: "takeWhile (\<lambda>c. c \<noteq> CHR ''m'') body = body"
    by (auto simp: takeWhile_eq_all_conv)
  have dr: "drop (length (take 63 body)) body = drop 63 body"
    by (cases "length body \<le> 63") (simp_all add: min_def)
  have "set (drop 63 body) \<subseteq> set body" by (rule set_drop_subset)
  with nom have "CHR ''m'' \<notin> set (drop 63 body)" by blast
  then have cs: "(case drop 63 body of [] \<Rightarrow> [] | c # r \<Rightarrow> if c = CHR ''m'' then r else drop 63 body)
      = drop 63 body"
    by (cases "drop 63 body") auto
  show ?thesis unfolding scan_codes_def Let_def tw dr cs ..
qed

lemma finish_after_codes: "finish (process_codes (save_segment st) codes) = finish st"
  by (simp add: finish_def save_segment_def Let_def)

text \<open>
  Claim C3, as the code has it. When the loop stands at an ESC \<open>[\<close> introducer whose body
  reaches the end of the line with no \<open>m\<close>, it takes the first 63 bytes of the body as the
  codes, applies them, and goes on at the 64th byte as with any input. So a body of at
  most 63 bytes is consumed whole, nothing of it is written as text and no segment follows
  it: the record is the one the loop would give if the line ended before the introducer,
  and for a line with no ESC before the introducer it is the record of that part of the
  line alone.
\<close>

theorem parse_ansi_line_unterminated:
  "CHR ''m'' \<notin> set body \<Longrightarrow>
   parse_loop st (ESC # CHR ''['' # body) =
     parse_loop (process_codes (save_segment st) (take 63 body)) (drop 63 body) \<and>
   (length body \<le> 63 \<longrightarrow> finish (parse_loop st (ESC # CHR ''['' # body)) = finish st) \<and>
   (length body \<le> 63 \<longrightarrow> ESC \<notin> set pre \<longrightarrow>
      parse_ansi_line_fresh (pre @ ESC # CHR ''['' # body) = parse_ansi_line_fresh pre)"
proof -
  assume nom: "CHR ''m'' \<notin> set body"
  have a: "parse_loop st (ESC # CHR ''['' # body) =
     parse_loop (process_codes (save_segment st) (take 63 body)) (drop 63 body)" for st
    by (simp add: at_introducer_def scan_codes_unterminated [OF nom])
  then have b: "finish (parse_loop st (ESC # CHR ''['' # body)) = finish st"
    if "length body \<le> 63" for st
    using that by (simp add: finish_after_codes)
  have c: "parse_ansi_line_fresh (pre @ ESC # CHR ''['' # body) = parse_ansi_line_fresh pre"
    if len: "length body \<le> 63" and pre: "ESC \<notin> set pre"
  proof -
    have "parse_loop init_state (pre @ ESC # CHR ''['' # body) =
        parse_loop (foldl add_char init_state pre) (ESC # CHR ''['' # body)"
      by (rule parse_loop_text [OF pre])
    moreover have "parse_loop init_state pre = foldl add_char init_state pre"
      using parse_loop_text [OF pre, of init_state "[]"] by simp
    ultimately show ?thesis
      unfolding parse_ansi_line_fresh_def using b [OF len, of "foldl add_char init_state pre"]
      by simp
  qed
  from a [of st] b [of st] c show ?thesis by blast
qed

theorem parse_ansi_line_unterminated_witness:
  "parse_ansi_line_fresh (''ab'' @ ESC # ''[31'') =
     \<lparr>segments = [\<lparr>seg_text = ''ab'', fg_color = ''#ffffff'', bg_color = [], bold = 0,
                   visible_pos = 0\<rparr>],
      visible_length = 2\<rparr>"
proof -
  have nom: "CHR ''m'' \<notin> set ''31''" by simp
  have pre: "ESC \<notin> set ''ab''" by (simp add: ESC_def)
  have len: "length ''31'' \<le> 63" by simp
  from parse_ansi_line_unterminated [OF nom, where pre = "''ab''"] len pre
  have "parse_ansi_line_fresh (''ab'' @ ESC # CHR ''['' # ''31'') = parse_ansi_line_fresh ''ab''"
    by blast
  moreover have "parse_ansi_line_fresh ''ab'' =
     \<lparr>segments = [\<lparr>seg_text = ''ab'', fg_color = ''#ffffff'', bg_color = [], bold = 0,
                   visible_pos = 0\<rparr>],
      visible_length = 2\<rparr>"
    by code_simp
  ultimately show ?thesis by simp
qed

text \<open>A body of 64 bytes with no \<open>m\<close>: code 31 is applied and the 64th byte is written as
  a red segment.\<close>

theorem parse_ansi_line_unterminated_counterexample:
  "CHR ''m'' \<notin> set (''31'' @ replicate 61 (CHR '';'') @ ''x'') \<and>
   parse_ansi_line_fresh (ESC # CHR ''['' # ''31'' @ replicate 61 (CHR '';'') @ ''x'') =
     \<lparr>segments = [\<lparr>seg_text = ''x'', fg_color = ''#cd3131'', bg_color = [], bold = 0,
                   visible_pos = 0\<rparr>],
      visible_length = 1\<rparr>"
  by code_simp

section \<open>Decimal numbers\<close>

lemma digit_char_simps:
  "digit_char 0 = CHR ''0''" "digit_char 1 = CHR ''1''" "digit_char 2 = CHR ''2''"
  "digit_char 3 = CHR ''3''" "digit_char 4 = CHR ''4''" "digit_char 5 = CHR ''5''"
  "digit_char 6 = CHR ''6''" "digit_char 7 = CHR ''7''" "digit_char 8 = CHR ''8''"
  "digit_char 9 = CHR ''9''"
  by code_simp+

lemma of_char_digit_char:
  "0 \<le> d \<Longrightarrow> d < 10 \<Longrightarrow> (of_char (digit_char d) :: nat) = nat (48 + d)"
proof -
  assume d: "0 \<le> d" "d < 10"
  then have "d = 0 \<or> d = 1 \<or> d = 2 \<or> d = 3 \<or> d = 4 \<or> d = 5 \<or> d = 6 \<or> d = 7 \<or> d = 8 \<or> d = 9"
    by arith
  then show ?thesis by (auto simp: digit_char_simps)
qed

lemma isdigit_digit_char: "0 \<le> d \<Longrightarrow> d < 10 \<Longrightarrow> isdigit (digit_char d)"
  by (auto simp: isdigit_def of_char_digit_char)

lemma digit_value_digit_char: "0 \<le> d \<Longrightarrow> d < 10 \<Longrightarrow> digit_value (digit_char d) = d"
  by (auto simp: digit_value_def of_char_digit_char)

lemma dec_digits: "0 \<le> n \<Longrightarrow> c \<in> set (dec n) \<Longrightarrow> isdigit c"
proof (induction n rule: dec.induct)
  case (1 n)
  show ?case
  proof (cases "n < 10")
    case True
    with "1.prems" show ?thesis by (simp add: dec.simps [of n] isdigit_digit_char)
  next
    case False
    then have step: "dec n = dec (n div 10) @ [digit_char (n mod 10)]"
      by (simp add: dec.simps [of n])
    from "1.prems"(2) consider "c \<in> set (dec (n div 10))" | "c = digit_char (n mod 10)"
      unfolding step by auto
    then show ?thesis
    proof cases
      case 1
      from False "1.prems"(1) have "0 \<le> n div 10" by simp
      from "1.IH" [OF False this 1] show ?thesis .
    next
      case 2
      then show ?thesis by (simp add: isdigit_digit_char)
    qed
  qed
qed

lemma dec_nonempty: "dec n \<noteq> []"
  by (subst dec.simps) simp

lemma strtol_digits_dec:
  "0 \<le> n \<Longrightarrow> strtol_digits acc (dec n @ r) = strtol_digits (acc * 10 ^ length (dec n) + n) r"
proof (induction n arbitrary: acc r rule: dec.induct)
  case (1 n)
  show ?case
  proof (cases "n < 10")
    case True
    then have "dec n = [digit_char n]" by (simp add: dec.simps [of n])
    with True "1.prems" show ?thesis
      by (simp add: isdigit_digit_char digit_value_digit_char)
  next
    case False
    then have step: "dec n = dec (n div 10) @ [digit_char (n mod 10)]"
      by (simp add: dec.simps [of n])
    from False "1.prems" have nn: "0 \<le> n div 10" by simp
    have "strtol_digits acc (dec n @ r) =
        strtol_digits acc (dec (n div 10) @ digit_char (n mod 10) # r)"
      unfolding step by simp
    also have "\<dots> = strtol_digits (acc * 10 ^ length (dec (n div 10)) + n div 10)
        (digit_char (n mod 10) # r)"
      by (rule "1.IH" [OF False nn])
    also have "\<dots> = strtol_digits
        ((acc * 10 ^ length (dec (n div 10)) + n div 10) * 10 + n mod 10) r"
      by (simp add: isdigit_digit_char digit_value_digit_char)
    also have "(acc * 10 ^ length (dec (n div 10)) + n div 10) * 10 + n mod 10 =
        acc * 10 ^ length (dec n) + n"
      unfolding step by (simp add: algebra_simps)
    finally show ?thesis .
  qed
qed

lemma strtol_digits_stop: "\<not> isdigit c \<Longrightarrow> strtol_digits acc (c # r) = acc"
  by simp

lemma strtol_digits_dec_end: "0 \<le> n \<Longrightarrow> strtol_digits 0 (dec n) = n"
  using strtol_digits_dec [of n 0 "[]"] by simp

lemma dec_inject: "0 \<le> m \<Longrightarrow> 0 \<le> n \<Longrightarrow> dec m = dec n \<Longrightarrow> m = n"
  by (metis strtol_digits_dec_end)

lemma dec_length: "0 \<le> n \<Longrightarrow> n < 10 ^ k \<Longrightarrow> 0 < k \<Longrightarrow> length (dec n) \<le> k"
proof (induction n arbitrary: k rule: dec.induct)
  case (1 n)
  show ?case
  proof (cases "n < 10")
    case True
    with "1.prems" show ?thesis by (simp add: dec.simps [of n])
  next
    case False
    then have step: "dec n = dec (n div 10) @ [digit_char (n mod 10)]"
      by (simp add: dec.simps [of n])
    from False "1.prems"(2) have k1: "1 < k"
      by (cases "k = 1") (use "1.prems"(3) in auto)
    then obtain j where k: "k = Suc j" and j: "0 < j" by (cases k) auto
    from "1.prems"(2) k have "n div 10 < 10 ^ j" by simp
    moreover from False "1.prems"(1) have "0 \<le> n div 10" by simp
    ultimately have "length (dec (n div 10)) \<le> j" using "1.IH" [OF False] j by blast
    with k show ?thesis unfolding step by simp
  qed
qed

lemma isdigit_cases: "isdigit c \<Longrightarrow> \<not> isspace c \<and> c \<noteq> CHR ''-'' \<and> c \<noteq> CHR ''+'' \<and> c \<noteq> CHR ''|''"
  by (auto simp: isdigit_def isspace_def)

lemma dec_head: "0 \<le> n \<Longrightarrow> \<exists>c r. dec n = c # r \<and> isdigit c"
proof -
  assume n: "0 \<le> n"
  obtain c r where cr: "dec n = c # r" using dec_nonempty [of n] by (cases "dec n") auto
  then have "c \<in> set (dec n)" by simp
  from dec_digits [OF n this] cr show ?thesis by blast
qed

section \<open>generate_hash\<close>

lemma strtoul_dec:
  assumes n: "0 \<le> n" "n < 2 ^ 64" and c: "\<not> isdigit c"
  shows "strtoul (dec n @ c # r) = n"
proof -
  from dec_head [OF n(1)] obtain d ds where d: "dec n = d # ds" "isdigit d" by blast
  from isdigit_cases [OF d(2)] have nd: "\<not> isspace d" "d \<noteq> CHR ''-''" "d \<noteq> CHR ''+''"
    by simp_all
  have dw: "dropWhile isspace (dec n @ c # r) = dec n @ c # r"
    using nd(1) by (simp add: d(1))
  have v: "strtol_digits 0 (dec n @ c # r) = n"
    using strtol_digits_dec [OF n(1), of 0 "c # r"] c by simp
  have "strtoul (dec n @ c # r) = (if 2 ^ 64 - 1 < n then 2 ^ 64 - 1 else n)"
    unfolding strtoul_def dw Let_def using nd(2,3) v by (simp add: d(1))
  with n(2) show ?thesis by simp
qed

lemma show_u32_length: "length (show_u32 w) \<le> 10"
proof -
  have "uint w < 2 ^ 32" using uint_bounded [of w] by simp
  then have "uint w < 10 ^ 10" by simp
  then show ?thesis unfolding show_u32_def by (intro dec_length) simp_all
qed

lemma generate_hash_answer:
  assumes "popen (cksum_command input) = Some (show_u32 w @ CHR '' '' # rest)"
  shows "generate_hash popen input = w"
proof -
  have len: "length (show_u32 w) \<le> 10" by (rule show_u32_length)
  then have tk: "take 63 (show_u32 w @ CHR '' '' # rest) =
      show_u32 w @ CHR '' '' # take (62 - length (show_u32 w)) rest"
    by (simp add: take_Cons')
  have "uint w < 2 ^ 32" using uint_bounded [of w] by simp
  then have b: "0 \<le> uint w" "uint w < 2 ^ 64" by simp_all
  have "\<not> isdigit (CHR '' '')" by (simp add: isdigit_def)
  from strtoul_dec [OF b this, of "take (62 - length (show_u32 w)) rest"]
  have "strtoul (take 63 (show_u32 w @ CHR '' '' # rest)) = uint w"
    unfolding tk by (simp only: show_u32_def)
  with assms show ?thesis by (simp add: generate_hash_def)
qed

text \<open>
  Claim C1, as the code has it. \<open>generate_hash\<close> asks the environment: it runs
  \<open>printf '%s' '<input>' | cksum\<close> through \<open>popen\<close> and returns the number at the start
  of the first line printed. So when that command prints the POSIX checksum of the input
  (followed by a space, as \<open>cksum\<close> does), the result is that checksum; when \<open>popen\<close>
  fails or nothing is printed, the result is the fallback hash \<open>hash * 31 + byte\<close>.
\<close>

theorem generate_hash_external:
  "(popen (cksum_command input) = Some (show_u32 (posix_cksum input) @ CHR '' '' # rest) \<longrightarrow>
      generate_hash popen input = posix_cksum input) \<and>
   (popen (cksum_command input) = None \<longrightarrow> generate_hash popen input = fallback_hash input)"
  using generate_hash_answer [of popen input "posix_cksum input" rest]
  by (simp add: generate_hash_def)

lemma cksum_command_plain:
  "length input < MAX_LINE_LENGTH \<Longrightarrow>
   cksum_command input =
     ''printf '' @ [CHR 0x27] @ ''%s'' @ [CHR 0x27] @ '' '' @ [CHR 0x27] @ input @
     [CHR 0x27] @ '' | cksum''"
  by (simp add: cksum_command_def MAX_LINE_LENGTH_def)

lemma working_cksum_answer:
  assumes "length input < MAX_LINE_LENGTH" "CHR 0x27 \<notin> set input"
  shows "working_cksum (cksum_command input) =
    Some (show_u32 (posix_cksum input) @ CHR '' '' # dec (int (length input)) @ [CHR 0x0A])"
proof -
  have "take (length (cksum_command input) - 22) (drop 13 (cksum_command input)) = input"
    by (simp add: cksum_command_plain [OF assms(1)])
  with assms show ?thesis by (simp add: working_cksum_def Let_def)
qed

lemma generate_hash_working:
  "length input < MAX_LINE_LENGTH \<Longrightarrow> CHR 0x27 \<notin> set input \<Longrightarrow>
   generate_hash working_cksum input = posix_cksum input"
  by (rule generate_hash_answer) (simp add: working_cksum_answer)

lemma crc_shift_numeral:
  "crc_shift (numeral k) crc =
   crc_shift (pred_numeral k)
     (if bit crc 31 then push_bit 1 crc XOR 0x04C11DB7 else push_bit 1 crc)"
  by (simp add: numeral_eq_Suc)

lemma length_octets_eval:
  "length_octets 0 = []"
  "length_octets 1 = [1]"
  "length_octets (numeral k) = word_of_int (numeral k) # length_octets (numeral k div 256)"
  by (simp_all add: length_octets.simps [of 0] length_octets.simps [of 1]
      length_octets.simps [of "numeral k"])

lemmas cksum_eval = posix_cksum_def crc_octet_def crc_shift_numeral length_octets_eval

lemma posix_cksum_a: "posix_cksum ''a'' = 1220704766"
  by (simp add: cksum_eval)

theorem generate_hash_external_witness:
  "generate_hash working_cksum ''a'' = 1220704766 \<and> generate_hash no_cksum ''a'' = 97"
proof -
  have "working_cksum (cksum_command ''a'') =
      Some (show_u32 (posix_cksum ''a'') @ CHR '' '' # dec (int (length ''a'')) @ [CHR 0x0A])"
    by (rule working_cksum_answer) (simp_all add: MAX_LINE_LENGTH_def)
  with generate_hash_external [of working_cksum "''a''" "dec (int (length ''a'')) @ [CHR 0x0A]"]
  have a: "generate_hash working_cksum ''a'' = 1220704766"
    by (simp add: posix_cksum_a)
  have "no_cksum (cksum_command ''a'') = None" by (simp add: no_cksum_def)
  with generate_hash_external [of no_cksum "''a''" "[]"]
  have "generate_hash no_cksum ''a'' = fallback_hash ''a''" by simp
  then have b: "generate_hash no_cksum ''a'' = 97" by (simp add: fallback_hash_def)
  from a b show ?thesis by simp
qed

text \<open>Where the utility is missing the hash of \<open>a\<close> is 97, which is neither the POSIX
  checksum of \<open>a\<close> nor the value the same call gives where the utility works.\<close>

theorem generate_hash_counterexample:
  "generate_hash no_cksum ''a'' \<noteq> posix_cksum ''a'' \<and>
   generate_hash no_cksum ''a'' \<noteq> generate_hash working_cksum ''a''"
proof -
  have a: "generate_hash no_cksum ''a'' = 97"
    by (simp add: generate_hash_def no_cksum_def fallback_hash_def)
  have "generate_hash working_cksum ''a'' = posix_cksum ''a''"
    by (rule generate_hash_working) (simp_all add: MAX_LINE_LENGTH_def)
  with a posix_cksum_a show ?thesis by simp
qed

section \<open>The global fingerprint\<close>

lemma global_fingerprint_eq:
  "global_fingerprint g input_lines =
   take (MAX_HASH_LENGTH - 1)
     (show_u32 (generate_hash (popen_line g)
        (concat (hash_input_lines (popen_line g) input_lines))))"
  by (simp add: global_fingerprint_def generate_global_input_hash_def)

lemma generate_hash_collides: "\<exists>l1 l2. l1 \<noteq> l2 \<and> generate_hash popen l1 = generate_hash popen l2"
proof (rule ccontr)
  assume "\<not> ?thesis"
  then have "inj (generate_hash popen)" by (auto simp: inj_def)
  moreover have "finite (range (generate_hash popen))" by (rule finite_subset [OF subset_UNIV]) simp
  ultimately have "finite (UNIV :: string set)" by (rule finite_imageD [rotated])
  then show False using infinite_UNIV_listI by blast
qed

text \<open>
  Claim C8, as the code has it. The global fingerprint is computed from the
  concatenation of the decimal per-line hashes alone: inputs with the same concatenation
  have the same fingerprint (in particular the same lines in the same order, hashed in
  the same environment). A changed or moved line need not change it: whatever the
  environment answers, two different lines with the same fingerprint exist.
\<close>

theorem global_fingerprint_of_hashes:
  "(concat (hash_input_lines (popen_line g) lines1) =
      concat (hash_input_lines (popen_line g) lines2) \<longrightarrow>
    global_fingerprint g lines1 = global_fingerprint g lines2) \<and>
   (\<exists>l1 l2. l1 \<noteq> l2 \<and> global_fingerprint g [l1] = global_fingerprint g [l2])"
proof -
  from generate_hash_collides [of "popen_line g"] obtain l1 l2 where
    "l1 \<noteq> l2" "generate_hash (popen_line g) l1 = generate_hash (popen_line g) l2" by blast
  then have "l1 \<noteq> l2 \<and> global_fingerprint g [l1] = global_fingerprint g [l2]"
    by (simp add: global_fingerprint_eq hash_input_lines_def)
  then show ?thesis by (auto simp: global_fingerprint_eq)
qed

lemma show_u32_33: "show_u32 33 = ''33''"
  by (simp add: show_u32_def dec.simps [of 33] dec.simps [of 3] digit_char_simps)

lemma show_u32_3333: "show_u32 3333 = ''3333''"
  by (simp add: show_u32_def dec.simps [of 3333] dec.simps [of 333] dec.simps [of 33]
      dec.simps [of 3] digit_char_simps)

theorem global_fingerprint_of_hashes_witness:
  "global_fingerprint example_globals [''!'', ''iN''] =
   global_fingerprint example_globals [''iN'', ''!'']"
proof -
  have h: "generate_hash no_cksum ''!'' = 33" "generate_hash no_cksum ''iN'' = 3333"
    by (simp_all add: generate_hash_def no_cksum_def fallback_hash_def)
  have "concat (hash_input_lines (popen_line example_globals) [''!'', ''iN'']) =
      concat (hash_input_lines (popen_line example_globals) [''iN'', ''!''])"
    by (simp add: hash_input_lines_def example_globals_def h show_u32_33 show_u32_3333
        MAX_HASH_LENGTH_def)
  with global_fingerprint_of_hashes [of example_globals "[''!'', ''iN'']" "[''iN'', ''!'']"]
  show ?thesis by blast
qed

lemma posix_cksum_collision: "posix_cksum ''kNbooE'' = posix_cksum ''ShZpzp''"
  by (simp add: cksum_eval)

text \<open>With a working \<open>cksum\<close>: two different lines with the same checksum. Replacing
  one by the other, or swapping them, leaves the fingerprint unchanged.\<close>

theorem global_fingerprint_counterexample:
  "''kNbooE'' \<noteq> ''ShZpzp'' \<and>
   global_fingerprint (example_globals\<lparr>popen_line := working_cksum\<rparr>) [''kNbooE''] =
   global_fingerprint (example_globals\<lparr>popen_line := working_cksum\<rparr>) [''ShZpzp''] \<and>
   global_fingerprint (example_globals\<lparr>popen_line := working_cksum\<rparr>) [''kNbooE'', ''ShZpzp''] =
   global_fingerprint (example_globals\<lparr>popen_line := working_cksum\<rparr>) [''ShZpzp'', ''kNbooE'']"
proof -
  have "generate_hash working_cksum ''kNbooE'' = posix_cksum ''kNbooE''"
    by (rule generate_hash_working) (simp_all add: MAX_LINE_LENGTH_def)
  moreover have "generate_hash working_cksum ''ShZpzp'' = posix_cksum ''ShZpzp''"
    by (rule generate_hash_working) (simp_all add: MAX_LINE_LENGTH_def)
  ultimately have "generate_hash working_cksum ''kNbooE'' = generate_hash working_cksum ''ShZpzp''"
    using posix_cksum_collision by simp
  then show ?thesis
    by (simp add: global_fingerprint_eq hash_input_lines_def)
qed

section \<open>The incremental cache file\<close>

lemma incremental_root_hash:
  "utf8_ok g (global_input_hash g) \<Longrightarrow>
   json_object_get (incremental_root g config_hash now) ''global_input_hash'' =
     Some (JString (global_input_hash g))"
  by (cases "json_string g config_hash")
     (simp_all add: incremental_root_def json_string_def Let_def)

lemma incremental_root_object: "\<exists>members. incremental_root g config_hash now = JObject members"
  by (cases "json_string g config_hash"; cases "json_string g (global_input_hash g)")
     (simp_all add: incremental_root_def Let_def)

text \<open>
  Claim C9, as the code has it. \<open>save_incremental_cache\<close> writes the document with one
  \<open>json_dump_file\<close> on \<open>incremental_cache_file\<close> itself: there is no temporary file
  and no rename. When the path can be written the call returns 0, only that file
  changes, it ends up holding the new document, from which \<open>load_incremental_cache\<close>
  reads the saved fingerprint back; while the call runs the file holds no complete
  document.
\<close>

theorem save_incremental_cache_in_place:
  "writable g (incremental_cache_file g) \<Longrightarrow> utf8_ok g (global_input_hash g) \<Longrightarrow>
   snd (save_incremental_cache g config_hash now) = 0 \<and>
   files (fst (save_incremental_cache g config_hash now)) =
     (files g)(incremental_cache_file g \<mapsto> Doc (incremental_root g config_hash now)) \<and>
   save_incremental_cache_trace g config_hash now =
     [(files g)(incremental_cache_file g \<mapsto> Torn),
      (files g)(incremental_cache_file g \<mapsto> Doc (incremental_root g config_hash now))] \<and>
   previous_input_hash (fst (load_incremental_cache (fst (save_incremental_cache g config_hash now))))
     = take (MAX_HASH_LENGTH - 1) (global_input_hash g)"
proof -
  assume w: "writable g (incremental_cache_file g)" and u: "utf8_ok g (global_input_hash g)"
  obtain members where m: "incremental_root g config_hash now = JObject members"
    using incremental_root_object by blast
  have get: "map_of members ''global_input_hash'' = Some (JString (global_input_hash g))"
    using incremental_root_hash [OF u, of config_hash now] by (simp add: m)
  show ?thesis
    using w get
    by (simp add: save_incremental_cache_def save_incremental_cache_trace_def json_dump_file_def
        json_dump_file_trace_def load_incremental_cache_def json_load_file_def m)
qed

theorem save_incremental_cache_in_place_witness:
  "snd (save_incremental_cache (example_globals\<lparr>global_input_hash := ''2112''\<rparr>) ''7'' 0) = 0 \<and>
   previous_input_hash (fst (load_incremental_cache
     (fst (save_incremental_cache (example_globals\<lparr>global_input_hash := ''2112''\<rparr>) ''7'' 0))))
     = ''2112''"
  using save_incremental_cache_in_place
    [of "example_globals\<lparr>global_input_hash := ''2112''\<rparr>" "''7''" 0]
  by (simp add: example_globals_def MAX_HASH_LENGTH_def)

text \<open>A valid incremental cache file is on disk; at the first step of the write it is
  torn.\<close>

theorem save_incremental_cache_counterexample:
  "files (example_globals\<lparr>files := [''/tmp/c/incremental.json'' \<mapsto> Doc (JObject [])]\<rparr>)
     ''/tmp/c/incremental.json'' = Some (Doc (JObject [])) \<and>
   hd (save_incremental_cache_trace
     (example_globals\<lparr>files := [''/tmp/c/incremental.json'' \<mapsto> Doc (JObject [])]\<rparr>)
     ''7'' 0) ''/tmp/c/incremental.json'' = Some Torn"
  by (simp add: save_incremental_cache_trace_def json_dump_file_trace_def example_globals_def)

section \<open>The configuration string\<close>

lemma dec_no_pipe: "0 \<le> n \<Longrightarrow> CHR ''|'' \<notin> set (dec n)"
  using dec_digits [of n "CHR ''|''"] isdigit_cases [of "CHR ''|''"] by blast

lemma show_int_no_pipe: "CHR ''|'' \<notin> set (show_int i)"
  by (simp add: show_int_def dec_no_pipe)

lemma show_int_inject: "show_int a = show_int b \<Longrightarrow> a = b"
proof -
  assume eq: "show_int a = show_int b"
  have neg: "show_int i \<noteq> CHR ''-'' # s" if "0 \<le> i" for i s
  proof -
    from dec_head [OF that] obtain c r where "dec i = c # r" "isdigit c" by blast
    with isdigit_cases [of c] that show ?thesis by (auto simp: show_int_def)
  qed
  show ?thesis
  proof (cases "a < 0")
    case True
    note a = this
    show ?thesis
    proof (cases "b < 0")
      case True
      with a eq have "dec (- a) = dec (- b)" by (simp add: show_int_def)
      from dec_inject [OF _ _ this] a True show ?thesis by simp
    next
      case False
      with a eq neg [of b "dec (- a)"] show ?thesis by (simp add: show_int_def)
    qed
  next
    case False
    note a = this
    show ?thesis
    proof (cases "b < 0")
      case True
      with a eq neg [of a "dec (- b)"] show ?thesis by (simp add: show_int_def)
    next
      case False
      with a eq have "dec a = dec b" by (simp add: show_int_def)
      from dec_inject [OF _ _ this] a False show ?thesis by simp
    qed
  qed
qed

lemma round_half_even_nonneg: "0 \<le> q \<Longrightarrow> 0 \<le> round_half_even q"
  by (auto simp: round_half_even_def Let_def)

lemma digit_char_no_pipe: "0 \<le> d \<Longrightarrow> d < 10 \<Longrightarrow> digit_char d \<noteq> CHR ''|''"
  using isdigit_digit_char [of d] isdigit_cases [of "digit_char d"] by blast

lemma finite_value_nonneg: "0 \<le> finite_value m e"
  by (simp add: finite_value_def)

lemma show_hundredths_no_pipe: "0 \<le> q \<Longrightarrow> CHR ''|'' \<notin> set (show_hundredths q)"
proof -
  assume q: "0 \<le> q"
  let ?r = "round_half_even (q * 100)"
  have r: "0 \<le> ?r" by (rule round_half_even_nonneg) (use q in simp)
  then have "0 \<le> ?r div 100" by simp
  from dec_no_pipe [OF this] have a: "CHR ''|'' \<notin> set (dec (?r div 100))" .
  have b: "digit_char (?r mod 100 div 10) \<noteq> CHR ''|''"
    by (rule digit_char_no_pipe) (use r in \<open>simp_all add: div_less_iff_less_mult\<close>)
  have c: "digit_char (?r mod 10) \<noteq> CHR ''|''"
    by (rule digit_char_no_pipe) simp_all
  from a b c show ?thesis by (auto simp: show_hundredths_def Let_def)
qed

lemma show_f2_no_pipe: "CHR ''|'' \<notin> set (show_f2 x)"
proof (cases x)
  case (Double negative mag)
  show ?thesis
  proof (cases mag)
    case (Finite m e)
    with Double show_hundredths_no_pipe [OF finite_value_nonneg [of m e]] show ?thesis
      by (simp add: show_f2_def)
  next
    case Infinite
    with Double show ?thesis by (simp add: show_f2_def)
  next
    case Not_a_number
    with Double show ?thesis by (simp add: show_f2_def)
  qed
qed

lemma field_split:
  "a @ CHR ''|'' # r = b @ CHR ''|'' # s \<Longrightarrow> CHR ''|'' \<notin> set a \<Longrightarrow> CHR ''|'' \<notin> set b \<Longrightarrow>
   a = b \<and> r = s"
proof (induction a arbitrary: b)
  case Nil
  then show ?case by (cases b) auto
next
  case (Cons x a)
  then show ?case by (cases b) auto
qed

lemma config_fields_list:
  "config_fields config =
   font_family config @ concat (map ((#) (CHR ''|'')) (config_field_list config))"
  by (simp add: config_fields_def config_field_list_def)

lemma config_field_list_no_pipe: "f \<in> set (config_field_list config) \<Longrightarrow> CHR ''|'' \<notin> set f"
  by (auto simp: config_field_list_def show_int_no_pipe show_f2_no_pipe BG_COLOR_def
      TEXT_COLOR_def split: if_splits)

lemma joined_fields_inject:
  "length fs = length gs \<Longrightarrow>
   concat (map ((#) (CHR ''|'')) fs) = concat (map ((#) (CHR ''|'')) gs) \<Longrightarrow>
   (\<And>f. f \<in> set fs \<Longrightarrow> CHR ''|'' \<notin> set f) \<Longrightarrow> (\<And>g. g \<in> set gs \<Longrightarrow> CHR ''|'' \<notin> set g) \<Longrightarrow>
   fs = gs"
proof (induction fs gs rule: list_induct2)
  case Nil
  then show ?case by simp
next
  case (Cons f fs g gs)
  from Cons.prems(1) have eq: "f @ concat (map ((#) (CHR ''|'')) fs) = g @ concat (map ((#) (CHR ''|'')) gs)"
    by simp
  have nf: "CHR ''|'' \<notin> set f" and ng: "CHR ''|'' \<notin> set g"
    using Cons.prems(2,3) by simp_all
  show ?case
  proof (cases fs)
    case Nil
    with Cons.hyps have "gs = []" by simp
    with Nil eq show ?thesis by simp
  next
    case (Cons f' fs')
    with Cons.hyps obtain g' gs' where gs: "gs = g' # gs'" by (cases gs) auto
    from eq Cons gs have "f @ CHR ''|'' # (f' @ concat (map ((#) (CHR ''|'')) fs')) =
        g @ CHR ''|'' # (g' @ concat (map ((#) (CHR ''|'')) gs'))"
      by simp
    from field_split [OF this nf ng]
    have fg: "f = g" and rest: "concat (map ((#) (CHR ''|'')) fs) = concat (map ((#) (CHR ''|'')) gs)"
      using Cons gs by simp_all
    from Cons.IH [OF rest] Cons.prems(2,3) have "fs = gs" by simp
    with fg show ?thesis by simp
  qed
qed

lemma config_fields_inject:
  assumes fam: "font_family c1 = font_family c2"
    and eq: "config_fields c1 = config_fields c2"
  shows "config_field_list c1 = config_field_list c2"
proof -
  from eq fam have "concat (map ((#) (CHR ''|'')) (config_field_list c1)) =
      concat (map ((#) (CHR ''|'')) (config_field_list c2))"
    by (simp add: config_fields_list)
  moreover have "length (config_field_list c1) = length (config_field_list c2)"
    by (simp add: config_field_list_def)
  ultimately show ?thesis
    using config_field_list_no_pipe by (intro joined_fields_inject) auto
qed

text \<open>
  Claim C7, as the code has it. For two configurations with the same font family whose
  serialisations fit the 1024-byte buffer, the canonical strings are equal exactly when
  the configurations agree on \<open>font_size\<close>, \<open>font_weight\<close>, \<open>width\<close>, \<open>height\<close> and
  \<open>tab_size\<close>, on whether \<open>wrap\<close> is zero, and on \<open>font_width\<close> and \<open>font_height\<close> as
  printed with two decimals. So a difference in one of the five integer fields always
  gives two different strings.
\<close>

theorem config_string_fields:
  "font_family c1 = font_family c2 \<Longrightarrow>
   length (config_fields c1) \<le> 1023 \<Longrightarrow> length (config_fields c2) \<le> 1023 \<Longrightarrow>
   (config_string c1 = config_string c2) =
   (font_size c1 = font_size c2 \<and> show_f2 (font_width c1) = show_f2 (font_width c2) \<and>
    show_f2 (font_height c1) = show_f2 (font_height c2) \<and> font_weight c1 = font_weight c2 \<and>
    width c1 = width c2 \<and> height c1 = height c2 \<and> (wrap c1 \<noteq> 0) = (wrap c2 \<noteq> 0) \<and>
    tab_size c1 = tab_size c2)"
proof -
  assume fam: "font_family c1 = font_family c2"
    and l1: "length (config_fields c1) \<le> 1023" and l2: "length (config_fields c2) \<le> 1023"
  from l1 l2 have cs: "config_string c1 = config_fields c1" "config_string c2 = config_fields c2"
    by (simp_all add: config_string_def)
  show ?thesis
  proof
    assume "config_string c1 = config_string c2"
    with cs have "config_fields c1 = config_fields c2" by simp
    from config_fields_inject [OF fam this]
    show "font_size c1 = font_size c2 \<and> show_f2 (font_width c1) = show_f2 (font_width c2) \<and>
      show_f2 (font_height c1) = show_f2 (font_height c2) \<and> font_weight c1 = font_weight c2 \<and>
      width c1 = width c2 \<and> height c1 = height c2 \<and> (wrap c1 \<noteq> 0) = (wrap c2 \<noteq> 0) \<and>
      tab_size c1 = tab_size c2"
      by (auto simp: config_field_list_def dest: show_int_inject split: if_splits)
  next
    assume "font_size c1 = font_size c2 \<and> show_f2 (font_width c1) = show_f2 (font_width c2) \<and>
      show_f2 (font_height c1) = show_f2 (font_height c2) \<and> font_weight c1 = font_weight c2 \<and>
      width c1 = width c2 \<and> height c1 = height c2 \<and> (wrap c1 \<noteq> 0) = (wrap c2 \<noteq> 0) \<and>
      tab_size c1 = tab_size c2"
    with fam have "config_fields c1 = config_fields c2"
      by (auto simp: config_fields_def)
    with cs show "config_string c1 = config_string c2" by simp
  qed
qed

lemma finite_value_examples:
  "finite_value 17 (- 1) = 17 / 2" "finite_value 4353 (- 9) = 4353 / 512"
  "finite_value 17 0 = 17" "finite_value 0 0 = 0"
  by (simp_all add: finite_value_def)

lemma show_hundredths_examples:
  "show_hundredths (17 / 2) = ''8.50''" "show_hundredths (4353 / 512) = ''8.50''"
  "show_hundredths 17 = ''17.00''" "show_hundredths 0 = ''0.00''"
  by code_simp+

lemma show_f2_examples:
  "show_f2 (Double False (Finite 17 (- 1))) = ''8.50''"
  "show_f2 (Double False (Finite 4353 (- 9))) = ''8.50''"
  "show_f2 (Double False (Finite 17 0)) = ''17.00''"
  "show_f2 (Double True (Finite 0 0)) = ''-0.00''"
  "show_f2 (Double False (Finite 0 0)) = ''0.00''"
  "show_f2 (Double True Not_a_number) = ''-nan''"
  "show_f2 (Double False Infinite) = ''inf''"
  by (simp_all add: show_f2_def finite_value_examples show_hundredths_examples)

lemma show_int_examples:
  "show_int 14 = ''14''" "show_int 15 = ''15''" "show_int 400 = ''400''" "show_int 80 = ''80''"
  "show_int 0 = ''0''" "show_int 8 = ''8''" "show_int 20 = ''20''"
  by code_simp+

lemma example_config_fits:
  "length (config_fields (example_config\<lparr>font_size := n\<rparr>)) \<le> 1023" if "n = 14 \<or> n = 15"
  using that
  by (auto simp: config_fields_def example_config_def show_f2_examples show_int_examples
      BG_COLOR_def TEXT_COLOR_def DEFAULT_PADDING_def)

theorem config_string_fields_witness:
  "config_string (example_config\<lparr>font_size := 14\<rparr>) \<noteq>
   config_string (example_config\<lparr>font_size := 15\<rparr>)"
proof -
  have "length (config_fields (example_config\<lparr>font_size := 14\<rparr>)) \<le> 1023"
    "length (config_fields (example_config\<lparr>font_size := 15\<rparr>)) \<le> 1023"
    by (simp_all add: example_config_fits)
  from config_string_fields [OF _ this] show ?thesis by simp
qed

text \<open>Font widths 8.5 and 8.501953125 (that is \<open>17 / 2\<close> and \<open>4353 / 512\<close>) differ and
  print as \<open>8.50\<close> both.\<close>

theorem config_string_counterexample:
  "font_width example_config = Double False (Finite 17 (- 1)) \<and>
   finite_value 4353 (- 9) \<noteq> finite_value 17 (- 1) \<and>
   config_string (example_config\<lparr>font_width := Double False (Finite 4353 (- 9))\<rparr>) =
     config_string example_config"
  by (simp add: config_string_def config_fields_def example_config_def show_f2_examples
      finite_value_examples)

section \<open>The line cache\<close>

lemma sint_int32: "- (2 ^ 31) \<le> i \<Longrightarrow> i < 2 ^ 31 \<Longrightarrow> sint (word_of_int i :: 32 word) = i"
  by (simp add: sint_sbintrunc' signed_take_bit_int_eq_self)

lemma atoi_show_int:
  assumes "- (2 ^ 31) \<le> i" "i < 2 ^ 31"
  shows "atoi (show_int i) = i"
proof (cases "i < 0")
  case True
  then have n: "0 \<le> - i" by simp
  have "\<not> isspace (CHR ''-'')" by (simp add: isspace_def)
  then have dw: "dropWhile isspace (show_int i) = CHR ''-'' # dec (- i)"
    using True by (simp add: show_int_def)
  have "strtol_digits 0 (dec (- i)) = - i" by (rule strtol_digits_dec_end [OF n])
  then have "atoi (show_int i) = sint (word_of_int (max i (- (2 ^ 63))) :: 32 word)"
    unfolding atoi_def dw Let_def by simp
  moreover have "max i (- (2 ^ 63)) = i" using assms(1) by simp
  ultimately show ?thesis using assms by (simp add: sint_int32)
next
  case False
  then have n: "0 \<le> i" by simp
  from dec_head [OF n] obtain d ds where d: "dec i = d # ds" "isdigit d" by blast
  from isdigit_cases [OF d(2)] have nd: "\<not> isspace d" "d \<noteq> CHR ''-''" "d \<noteq> CHR ''+''"
    by simp_all
  have dw: "dropWhile isspace (show_int i) = dec i"
    using False nd(1) by (simp add: show_int_def d(1))
  have v: "strtol_digits 0 (dec i) = i" by (rule strtol_digits_dec_end [OF n])
  have "atoi (show_int i) = sint (word_of_int (min i (2 ^ 63 - 1)) :: 32 word)"
    unfolding atoi_def dw Let_def using nd(2,3) v by (simp add: d(1))
  moreover have "min i (2 ^ 63 - 1) = i" using assms(2) by simp
  ultimately show ?thesis using assms by (simp add: sint_int32)
qed

lemma show_int_length: "- (2 ^ 31) \<le> i \<Longrightarrow> i < 2 ^ 31 \<Longrightarrow> length (show_int i) \<le> 11"
proof -
  assume a: "- (2 ^ 31) \<le> i" "i < 2 ^ 31"
  have "length (dec \<bar>i\<bar>) \<le> 10"
    by (rule dec_length) (use a in simp_all)
  then show ?thesis by (cases "i < 0") (simp_all add: show_int_def abs_if)
qed

lemma split_fields_field:
  "CHR ''|'' \<notin> set a \<Longrightarrow> split_fields (Suc n) (a @ CHR ''|'' # r) = a # split_fields n r"
proof -
  assume "CHR ''|'' \<notin> set a"
  then have "\<And>x. x \<in> set a \<Longrightarrow> x \<noteq> CHR ''|''" by auto
  then show ?thesis by (simp add: takeWhile_append2 dropWhile_append2)
qed

lemma split_fields_last: "CHR ''|'' \<notin> set a \<Longrightarrow> split_fields (Suc n) a = [a]"
  by simp

lemma load_segment_segment_string:
  assumes "storable g seg"
  shows "load_segment old (segment_string seg) = Some seg"
proof -
  let ?b = "if bold seg \<noteq> 0 then ''true'' else ''false''"
  let ?s = "seg_text seg @ CHR ''|'' # fg_color seg @ CHR ''|'' # bg_color seg @ CHR ''|'' #
    ?b @ CHR ''|'' # show_int (visible_pos seg)"
  from assms have st:
    "CHR ''|'' \<notin> set (seg_text seg)" "CHR ''|'' \<notin> set (fg_color seg)"
    "CHR ''|'' \<notin> set (bg_color seg)" "length (seg_text seg) < MAX_LINE_LENGTH"
    "length (fg_color seg) < MAX_COLOR_LENGTH" "length (bg_color seg) < MAX_COLOR_LENGTH"
    "bold seg = 0 \<or> bold seg = 1" "- (2 ^ 31) \<le> visible_pos seg" "visible_pos seg < 2 ^ 31"
    by (simp_all add: storable_def)
  have lp: "length (show_int (visible_pos seg)) \<le> 11" by (rule show_int_length [OF st(8,9)])
  have lb: "length ?b \<le> 5" by simp
  have "length ?s \<le> MAX_LINE_LENGTH * 2 - 1"
    using st(4,5,6) lp lb by (simp add: MAX_LINE_LENGTH_def MAX_COLOR_LENGTH_def)
  then have ss: "take (MAX_LINE_LENGTH * 2 - 1) (segment_string seg) = ?s"
    by (simp add: segment_string_def)
  have nb: "CHR ''|'' \<notin> set ?b" by simp
  have np: "CHR ''|'' \<notin> set (show_int (visible_pos seg))" by (rule show_int_no_pipe)
  have five: "(5::nat) = Suc (Suc (Suc (Suc (Suc 0))))" by simp
  have parts: "split_fields 5 ?s =
      [seg_text seg, fg_color seg, bg_color seg, ?b, show_int (visible_pos seg)]"
    unfolding five
    by (simp only: split_fields_field [OF st(1)] split_fields_field [OF st(2)]
        split_fields_field [OF st(3)] split_fields_field [OF nb] split_fields_last [OF np])
  show ?thesis
    unfolding load_segment_def ss parts Let_def
    using st(4,5,6,7) atoi_show_int [OF st(8,9)]
    by (auto simp: part_def fits_def)
qed

lemma save_segments_array:
  "(\<And>seg. seg \<in> set segs \<Longrightarrow> utf8_ok g (segment_string seg)) \<Longrightarrow>
   foldl (\<lambda>arr seg. json_array_append_new arr (json_string g (segment_string seg)))
     (JArray acc) segs =
   JArray (acc @ map (\<lambda>seg. JString (segment_string seg)) segs)"
  by (induction segs arbitrary: acc) (simp_all add: json_string_def)

lemma load_segments_stored:
  "(\<And>seg. seg \<in> set segs \<Longrightarrow> storable g seg) \<Longrightarrow>
   length acc + length segs \<le> MAX_SEGMENTS \<Longrightarrow>
   load_segments prior acc (map (\<lambda>seg. JString (segment_string seg)) segs) = Some (acc @ segs)"
proof (induction segs arbitrary: acc)
  case Nil
  then show ?case by simp
next
  case (Cons seg segs)
  from Cons.prems have lt: "length acc < MAX_SEGMENTS" by simp
  have ld: "load_segment (prior (length acc)) (segment_string seg) = Some seg"
    by (rule load_segment_segment_string [of g]) (simp add: Cons.prems(1))
  have "load_segments prior (acc @ [seg]) (map (\<lambda>seg. JString (segment_string seg)) segs) =
      Some ((acc @ [seg]) @ segs)"
    by (rule Cons.IH) (use Cons.prems in simp_all)
  with lt ld show ?case by simp
qed

text \<open>What the format does preserve: a record of storable segments, saved to a path that
  fits and can be written, is loaded back unchanged (the timestamp is not part of it).\<close>

lemma save_load_roundtrip:
  assumes path: "length (cache_dir g @ ''/'' @ cache_key @ ''.json'') < MAX_PATH_LENGTH"
    and w: "writable g (cache_dir g @ ''/'' @ cache_key @ ''.json'')"
    and n: "segment_count line_data \<le> MAX_SEGMENTS"
    and vl: "- (2 ^ 31) \<le> visible_length line_data" "visible_length line_data < 2 ^ 31"
    and segs: "\<And>seg. seg \<in> set (segments line_data) \<Longrightarrow> storable g seg"
  shows "snd (load_line_cache (fst (save_line_cache g now cache_key line_data)) cache_key prior)
    = Loaded line_data"
proof -
  let ?file = "cache_dir g @ ''/'' @ cache_key @ ''.json''"
  let ?arr = "JArray (map (\<lambda>seg. JString (segment_string seg)) (segments line_data))"
  have arr: "foldl (\<lambda>arr seg. json_array_append_new arr (json_string g (segment_string seg)))
      (JArray []) (segments line_data) = ?arr"
    using save_segments_array [of "segments line_data" g "[]"] segs
    by (simp add: storable_def)
  obtain members where
    saved: "fst (save_line_cache g now cache_key line_data) =
        g\<lparr>files := (files g)(?file \<mapsto> Doc (JObject members))\<rparr>"
    and vlm: "map_of members ''visible_length'' = Some (JInteger (visible_length line_data))"
    and sgm: "map_of members ''segments'' = Some ?arr"
    using path w arr
    by (cases "json_string g cache_key")
       (simp_all add: save_line_cache_def json_dump_file_def Let_def)
  have ls: "load_segments prior [] (map (\<lambda>seg. JString (segment_string seg)) (segments line_data))
      = Some (segments line_data)"
    using load_segments_stored [of "segments line_data" g "[]" prior] segs n
    by (simp add: segment_count_def)
  show ?thesis
    unfolding saved
    using path vlm sgm ls sint_int32 [OF vl]
    by (simp add: load_line_cache_def json_load_file_def Let_def)
qed

text \<open>With NULL hashes, or after a miss, \<open>parse_ansi_line\<close> returns the record of lines
  138-263.\<close>

lemma parse_ansi_line_no_hashes:
  "parse_ansi_line g now line None None prior = (g, Loaded (parse_ansi_line_fresh line))"
  by (simp add: parse_ansi_line_def)

lemma parse_ansi_line_miss:
  "load_line_cache g (get_cache_key line_hash config_hash) prior = (g', Miss) \<Longrightarrow>
   snd (parse_ansi_line g now line (Some line_hash) (Some config_hash) prior) =
     Loaded (parse_ansi_line_fresh line)"
  by (simp add: parse_ansi_line_def Let_def)

text \<open>
  Claim C6, what the code does instead. A field whose part is missing from the segment
  string is not assigned: with at most three parts the bold flag, and with at most four
  parts the visible position, is whatever the slot held before the call.
\<close>

theorem load_segment_missing_fields:
  "load_segment old segment_data = Some seg \<Longrightarrow>
   (length (split_fields 5 (take (MAX_LINE_LENGTH * 2 - 1) segment_data)) \<le> 3 \<longrightarrow>
      bold seg = bold old) \<and>
   (length (split_fields 5 (take (MAX_LINE_LENGTH * 2 - 1) segment_data)) \<le> 4 \<longrightarrow>
      visible_pos seg = visible_pos old)"
  by (auto simp: load_segment_def part_def Let_def split: if_splits)

lemma split_fields_eval:
  "split_fields (numeral k) current =
     (if CHR ''|'' \<in> set current
      then takeWhile (\<lambda>c. c \<noteq> CHR ''|'') current #
           split_fields (pred_numeral k) (tl (dropWhile (\<lambda>c. c \<noteq> CHR ''|'') current))
      else [current])"
  by (simp add: numeral_eq_Suc)

theorem load_segment_missing_fields_witness:
  "load_segment stale_segment ''abc'' =
     Some \<lparr>seg_text = ''abc'', fg_color = ''#cd3131'', bg_color = ''#000000'', bold = 1,
           visible_pos = 7\<rparr> \<and>
   bold (the (load_segment stale_segment ''abc'')) = bold stale_segment \<and>
   visible_pos (the (load_segment stale_segment ''abc'')) = visible_pos stale_segment"
proof -
  have parts: "split_fields 5 (take (MAX_LINE_LENGTH * 2 - 1) ''abc'') = [''abc'']"
    by (simp add: split_fields_eval MAX_LINE_LENGTH_def)
  have ls: "load_segment stale_segment ''abc'' =
     Some \<lparr>seg_text = ''abc'', fg_color = ''#cd3131'', bg_color = ''#000000'', bold = 1,
           visible_pos = 7\<rparr>"
    by code_simp
  from load_segment_missing_fields [OF ls] parts ls show ?thesis by simp
qed

text \<open>The same through \<open>load_line_cache\<close>: a cache file whose only segment string is
  \<open>abc\<close>, read into memory that held a bold segment at position 7.\<close>

lemma load_line_cache_one_field:
  "snd (load_line_cache
     (example_globals\<lparr>files := [''/tmp/c/k.json'' \<mapsto>
        Doc (JObject [(''visible_length'', JInteger 3), (''segments'', JArray [JString ''abc''])])]\<rparr>)
     ''k'' (\<lambda>i. stale_segment)) =
   Loaded \<lparr>segments = [\<lparr>seg_text = ''abc'', fg_color = ''#cd3131'', bg_color = ''#000000'',
                         bold = 1, visible_pos = 7\<rparr>],
           visible_length = 3\<rparr>"
  by code_simp

text \<open>
  Claim C2, at the record the parser computes for the line \<open>a|b\<close>: saving it and
  loading it again gives a record whose segment has text \<open>a\<close>, foreground \<open>b\<close> and
  background \<open>#ffffff\<close>.
\<close>

theorem save_load_pipe:
  "parse_ansi_line_fresh ''a|b'' =
     \<lparr>segments = [\<lparr>seg_text = ''a|b'', fg_color = ''#ffffff'', bg_color = [], bold = 0,
                   visible_pos = 0\<rparr>],
      visible_length = 3\<rparr> \<and>
   snd (load_line_cache
          (fst (save_line_cache example_globals 0 ''1_2'' (parse_ansi_line_fresh ''a|b'')))
          ''1_2'' prior) =
     Loaded \<lparr>segments = [\<lparr>seg_text = ''a'', fg_color = ''b'', bg_color = ''#ffffff'', bold = 0,
                          visible_pos = 0\<rparr>],
             visible_length = 3\<rparr>"
  by code_simp

end
